theory Spec2Isabelle
  imports Main "HOL-Library.Word"
begin

section \<open>Framing codec: NativeMessaging (native-messaging.js)\<close>

text \<open>
  A \<open>Buffer\<close> is a list of bytes. The JSON layer is not part of the repository:
  \<open>stringify\<close> stands for \<open>Buffer.from(JSON.stringify(message), 'utf8')\<close> and
  \<open>parse\<close> for \<open>JSON.parse(messageBuffer.toString('utf8'))\<close>, with \<open>None\<close> where
  \<open>JSON.parse\<close> throws. Both are parameters of the operations below.
\<close>

type_synonym byte = "8 word"

datatype nm_error =
    ParseError "byte list"
  | MessageTooLarge nat
  | RangeError nat

text \<open>\<open>buf.readUInt32LE(0)\<close>; the loop calls it only on four bytes or more.\<close>

definition readUInt32LE :: "byte list \<Rightarrow> nat" where
  "readUInt32LE b =
     unat (b ! 0) + 256 * unat (b ! 1) + 65536 * unat (b ! 2) + 16777216 * unat (b ! 3)"

text \<open>
  \<open>Buffer.alloc(4)\<close> followed by \<open>writeUInt32LE(value, 0)\<close>, which throws a
  \<open>RangeError\<close> for a value above \<open>2^32 - 1\<close>.
\<close>

definition writeUInt32LE :: "nat \<Rightarrow> nm_error + byte list" where
  "writeUInt32LE v =
     (if v \<le> 4294967295
      then Inr [of_nat v, of_nat (v div 256), of_nat (v div 65536), of_nat (v div 16777216)]
      else Inl (RangeError v))"

text \<open>
  The state of one \<open>NativeMessaging\<close> object and of its two streams: the accumulation
  \<open>buffer\<close>, the messages handed to \<open>messageHandler\<close> (\<open>received\<close>), the errors
  handed to \<open>errorHandler\<close> (\<open>errors\<close>) and the bytes written to
  \<open>process.stdout\<close>.
\<close>

record 'm NativeMessaging =
  buffer :: "byte list"
  received :: "'m list"
  errors :: "nm_error list"
  stdout :: "byte list"

definition NativeMessaging_new :: "'m NativeMessaging" where
  "NativeMessaging_new = \<lparr>buffer = [], received = [], errors = [], stdout = []\<rparr>"

text \<open>
  The \<open>try { JSON.parse \<dots> messageHandler(message) } catch { errorHandler(\<dots>) }\<close>
  at the end of the loop body.
\<close>

definition deliver ::
  "(byte list \<Rightarrow> 'm option) \<Rightarrow> byte list \<Rightarrow> 'm NativeMessaging \<Rightarrow> 'm NativeMessaging" where
  "deliver parse messageBuffer s =
     (case parse messageBuffer of
        Some message \<Rightarrow> s\<lparr>received := received s @ [message]\<rparr>
      | None \<Rightarrow> s\<lparr>errors := errors s @ [ParseError messageBuffer]\<rparr>)"

text \<open>
  The \<open>while (this.buffer.length >= 4)\<close> loop of \<open>handleData\<close>. Every round removes
  at least the four bytes of the prefix, which is why it ends.
\<close>

function process_buffer ::
  "(byte list \<Rightarrow> 'm option) \<Rightarrow> 'm NativeMessaging \<Rightarrow> 'm NativeMessaging" where
  "process_buffer parse s =
     (if length (buffer s) \<ge> 4 then
        (let messageLength = readUInt32LE (buffer s) in
         if length (buffer s) < 4 + messageLength then s
         else
           (let messageBuffer = take messageLength (drop 4 (buffer s));
                s' = s\<lparr>buffer := drop (4 + messageLength) (buffer s)\<rparr>
            in process_buffer parse (deliver parse messageBuffer s')))
      else s)"
  by pat_completeness auto
termination
  by (relation "measure (\<lambda>(parse, s). length (buffer s))")
     (auto simp: deliver_def split: option.splits)

declare process_buffer.simps [simp del]

text \<open>\<open>handleData(chunk)\<close>: append the chunk, then run the loop.\<close>

definition handleData ::
  "(byte list \<Rightarrow> 'm option) \<Rightarrow> byte list \<Rightarrow> 'm NativeMessaging \<Rightarrow> 'm NativeMessaging" where
  "handleData parse chunk s = process_buffer parse (s\<lparr>buffer := buffer s @ chunk\<rparr>)"

definition MAX_MESSAGE_SIZE :: nat where
  "MAX_MESSAGE_SIZE = 1024 * 1024"

text \<open>
  \<open>send(message)\<close>. Both throws of the \<open>try\<close> block (the size check and
  \<open>writeUInt32LE\<close>) end in the \<open>catch\<close>, which hands the error to \<open>errorHandler\<close>;
  the two writes to \<open>process.stdout\<close> come after both.
\<close>

definition NativeMessaging_send ::
  "('m \<Rightarrow> byte list) \<Rightarrow> 'm \<Rightarrow> 'm NativeMessaging \<Rightarrow> 'm NativeMessaging" where
  "NativeMessaging_send stringify message s =
     (let buf = stringify message in
      if length buf > MAX_MESSAGE_SIZE
      then s\<lparr>errors := errors s @ [MessageTooLarge (length buf)]\<rparr>
      else (case writeUInt32LE (length buf) of
              Inl e \<Rightarrow> s\<lparr>errors := errors s @ [e]\<rparr>
            | Inr lengthBuffer \<Rightarrow> s\<lparr>stdout := stdout s @ lengthBuffer @ buf\<rparr>))"

text \<open>A run of \<open>send\<close> calls, and a run of \<open>data\<close> events on \<open>stdin\<close>.\<close>

definition sends ::
  "('m \<Rightarrow> byte list) \<Rightarrow> 'm list \<Rightarrow> 'm NativeMessaging \<Rightarrow> 'm NativeMessaging" where
  "sends stringify ms s = foldl (\<lambda>s m. NativeMessaging_send stringify m s) s ms"

definition feed ::
  "(byte list \<Rightarrow> 'm option) \<Rightarrow> byte list list \<Rightarrow> 'm NativeMessaging \<Rightarrow> 'm NativeMessaging" where
  "feed parse chunks s = foldl (\<lambda>s chunk. handleData parse chunk s) s chunks"

text \<open>
  Two notions for stating properties of the byte stream: the frame of a body (its
  length prefix, then the body), and a buffer that holds no complete frame at its
  front (fewer than four bytes, or fewer bytes than its prefix announces).
\<close>

definition frame :: "byte list \<Rightarrow> byte list" where
  "frame body =
     (case writeUInt32LE (length body) of
        Inl e \<Rightarrow> []
      | Inr lengthBuffer \<Rightarrow> lengthBuffer @ body)"

definition incomplete :: "byte list \<Rightarrow> bool" where
  "incomplete b = (length b < 4 \<or> length b < 4 + readUInt32LE b)"

section \<open>WebSocket wrappers\<close>

text \<open>
  The \<open>ws\<close> library's socket object, as far as the wrappers use it: its
  \<open>readyState\<close> and the frames handed to \<open>ws.send\<close>, in order. The object has no
  queue of its own in this model because neither wrapper ever calls \<open>ws.send\<close> on a
  socket that is not open.
\<close>

datatype readyState = CONNECTING | OPEN | CLOSING | CLOSED

record 'm WebSocket =
  readyState :: readyState
  transmitted :: "'m list"

text \<open>\<open>ws.send(JSON.stringify(message))\<close> on an open socket.\<close>

definition ws_send :: "'m \<Rightarrow> 'm WebSocket \<Rightarrow> 'm WebSocket" where
  "ws_send m w = w\<lparr>transmitted := transmitted w @ [m]\<rparr>"

subsection \<open>WSClient: the Windows host's per-client wrapper (websocket-server.js)\<close>

record 'm WSClient =
  wsc_ws :: "'m WebSocket"

text \<open>
  \<^verbatim>\<open>send(message) { if (this.ws.readyState === WebSocket.OPEN) {
      this.ws.send(JSON.stringify(message)); } }\<close>
\<close>

definition WSClient_send :: "'m \<Rightarrow> 'm WSClient \<Rightarrow> 'm WSClient" where
  "WSClient_send m c =
     (if readyState (wsc_ws c) = OPEN then c\<lparr>wsc_ws := ws_send m (wsc_ws c)\<rparr> else c)"

subsection \<open>WebSocketClient: the WSL bridge's upstream client (websocket-client.js)\<close>

definition RECONNECT_DELAY :: nat where
  "RECONNECT_DELAY = 2000"

definition MAX_RECONNECT_ATTEMPTS :: nat where
  "MAX_RECONNECT_ATTEMPTS = 50"

text \<open>
  \<open>ws\<close> is \<open>null\<close> until the first \<open>connect()\<close>. \<open>dropped\<close> keeps the sockets that
  \<open>connect()\<close> replaced (listeners removed, closed), so that nothing a state ever held
  is lost from view.
\<close>

record 'm WebSocketClient =
  ws :: "'m WebSocket option"
  reconnectAttempts :: nat
  shouldReconnect :: bool
  connected :: bool
  dropped :: "'m WebSocket list"

definition WebSocketClient_new :: "'m WebSocketClient" where
  "WebSocketClient_new =
     \<lparr>ws = None, reconnectAttempts = 0, shouldReconnect = True, connected = False,
      dropped = []\<rparr>"

text \<open>\<open>return this.connected && this.ws && this.ws.readyState === WebSocket.OPEN\<close>\<close>

definition isConnected :: "'m WebSocketClient \<Rightarrow> bool" where
  "isConnected c =
     (connected c \<and> (case ws c of None \<Rightarrow> False | Some w \<Rightarrow> readyState w = OPEN))"

text \<open>\<open>send(message) { if (this.isConnected()) { this.ws.send(JSON.stringify(message)); } }\<close>\<close>

definition WebSocketClient_send :: "'m \<Rightarrow> 'm WebSocketClient \<Rightarrow> 'm WebSocketClient" where
  "WebSocketClient_send m c =
     (if isConnected c then c\<lparr>ws := map_option (ws_send m) (ws c)\<rparr> else c)"

text \<open>
  \<open>connect()\<close>: an existing socket loses its listeners and is closed; a new socket is
  created, which starts in state CONNECTING.
\<close>

definition connect :: "'m WebSocketClient \<Rightarrow> 'm WebSocketClient" where
  "connect c =
     c\<lparr>ws := Some \<lparr>readyState = CONNECTING, transmitted = []\<rparr>,
       dropped := (case ws c of None \<Rightarrow> dropped c
                   | Some w \<Rightarrow> dropped c @ [w\<lparr>readyState := CLOSING\<rparr>])\<rparr>"


text \<open>\<open>RECONNECT_DELAY * Math.min(this.reconnectAttempts, 5)\<close>, at attempt count \<open>k\<close>.\<close>

definition reconnect_delay :: "nat \<Rightarrow> nat" where
  "reconnect_delay k = RECONNECT_DELAY * min k 5"

text \<open>
  \<open>attemptReconnect()\<close>. The result is the new state and the delay of the timer that
  the call set with \<open>setTimeout\<close>, if it set one.
\<close>

definition attemptReconnect :: "'m WebSocketClient \<Rightarrow> 'm WebSocketClient \<times> nat option" where
  "attemptReconnect c =
     (if \<not> shouldReconnect c then (c, None)
      else if reconnectAttempts c \<ge> MAX_RECONNECT_ATTEMPTS then (c, None)
      else let c' = c\<lparr>reconnectAttempts := reconnectAttempts c + 1\<rparr>;
               delay = reconnect_delay (reconnectAttempts c')
           in (c', Some delay))"

text \<open>The socket's \<open>close\<close> listener: \<open>connected = false\<close>, then \<open>attemptReconnect()\<close>.\<close>

definition on_close :: "'m WebSocketClient \<Rightarrow> 'm WebSocketClient \<times> nat option" where
  "on_close c =
     attemptReconnect
       (c\<lparr>connected := False, ws := map_option (\<lambda>w. w\<lparr>readyState := CLOSED\<rparr>) (ws c)\<rparr>)"

text \<open>The timer's callback: \<open>if (this.shouldReconnect) { this.connect(); }\<close>\<close>

definition reconnect_timer :: "'m WebSocketClient \<Rightarrow> 'm WebSocketClient" where
  "reconnect_timer c = (if shouldReconnect c then connect c else c)"

text \<open>
  The reconnect loop against \<open>n\<close> consecutive connection failures. A failed connection
  closes the current socket; the \<open>close\<close> listener may set a timer; the timer's callback
  connects again, and that connection is the next to fail. When no timer was set,
  nothing connects any more and the loop is over, whatever failures remain. The result
  lists the delays of the timers set, in order.
\<close>

fun reconnect_loop :: "nat \<Rightarrow> 'm WebSocketClient \<Rightarrow> nat list \<times> 'm WebSocketClient" where
  "reconnect_loop 0 c = ([], c)"
| "reconnect_loop (Suc n) c =
     (case on_close c of
        (c', None) \<Rightarrow> ([], c')
      | (c', Some d) \<Rightarrow>
          (case reconnect_loop n (reconnect_timer c') of (ds, c'') \<Rightarrow> (d # ds, c'')))"

section \<open>Remote command client: CDPClient (cdp-client.js)\<close>

text \<open>
  A JSON value is kept as its text. A promise is named by the number of promises
  created before it; what a \<open>resolve\<close> or \<open>reject\<close> function is called with is a
  \<open>settlement\<close>.
\<close>

type_synonym json = string
type_synonym promise = nat

datatype settlement = Resolved json | Rejected string

text \<open>
  A frame from Chrome after \<open>JSON.parse\<close>: \<open>message.id\<close> (\<open>None\<close> when undefined, as
  in an event notification), \<open>message.error.message\<close> when \<open>message.error\<close> is
  truthy, and \<open>message.result\<close>.
\<close>

record message =
  msg_id :: "nat option"
  msg_error :: "string option"
  msg_result :: json

text \<open>
  The client and what surrounds it. \<open>cdp_ws\<close> is \<open>this.ws\<close>: \<open>null\<close>, or a socket in
  some \<open>readyState\<close>. \<open>pendingCommands\<close> maps an id to the \<open>{resolve, reject}\<close> pair of
  a promise. \<open>wire\<close> lists the frames handed to \<open>ws.send\<close>. \<open>created\<close> counts the
  promises \<open>send\<close> has returned, \<open>calls\<close> lists every call of a \<open>resolve\<close> or
  \<open>reject\<close> function in order, and \<open>timers\<close> holds the 30-second timers that have
  not fired yet, under the id their closure holds, with the \<open>method\<close> and the
  promise of that closure.
\<close>

record CDPClient =
  cdp_ws :: "readyState option"
  messageId :: nat
  pendingCommands :: "nat \<rightharpoonup> promise"
  cdp_targetId :: "string option"
  wire :: "(nat \<times> string \<times> json) list"
  created :: nat
  calls :: "(promise \<times> settlement) list"
  timers :: "nat \<rightharpoonup> string \<times> promise"

definition CDPClient_new :: CDPClient where
  "CDPClient_new =
     \<lparr>cdp_ws = None, messageId = 0, pendingCommands = Map.empty, cdp_targetId = None,
      wire = [], created = 0, calls = [], timers = Map.empty\<rparr>"

text \<open>
  A promise takes the first settlement it is given and ignores every later one, which
  is what \<open>map_of\<close> reads from the list of calls.
\<close>

definition settle :: "promise \<Rightarrow> settlement \<Rightarrow> CDPClient \<Rightarrow> CDPClient" where
  "settle p v s = s\<lparr>calls := calls s @ [(p, v)]\<rparr>"

definition promise_state :: "CDPClient \<Rightarrow> promise \<Rightarrow> settlement option" where
  "promise_state s p = map_of (calls s) p"

text \<open>
  \<^verbatim>\<open>handleMessage(message) {
    if (message.id !== undefined && this.pendingCommands.has(message.id)) {
      const { resolve, reject } = this.pendingCommands.get(message.id);
      this.pendingCommands.delete(message.id);
      if (message.error) { reject(new Error(message.error.message)); }
      else { resolve(message.result); } } }\<close>
\<close>

definition handleMessage :: "message \<Rightarrow> CDPClient \<Rightarrow> CDPClient" where
  "handleMessage message s =
     (case msg_id message of
        None \<Rightarrow> s
      | Some i \<Rightarrow>
          (case pendingCommands s i of
             None \<Rightarrow> s
           | Some p \<Rightarrow>
               (let s' = s\<lparr>pendingCommands := (pendingCommands s)(i := None)\<rparr>
                in case msg_error message of
                     Some e \<Rightarrow> settle p (Rejected e) s'
                   | None \<Rightarrow> settle p (Resolved (msg_result message)) s')))"

text \<open>
  \<open>send(method, params)\<close>, up to the point where it returns its promise. Without an
  open socket the promise is rejected at once. Otherwise the next id is taken, the
  entry is registered, the frame is handed to the socket and the timer is set.
\<close>

definition CDPClient_send :: "string \<Rightarrow> json \<Rightarrow> CDPClient \<Rightarrow> promise \<times> CDPClient" where
  "CDPClient_send method params s =
     (let p = created s;
          s0 = s\<lparr>created := created s + 1\<rparr>
      in if cdp_ws s \<noteq> Some OPEN
         then (p, settle p (Rejected ''Not connected to Chrome'') s0)
         else
           (let i = messageId s0 + 1
            in (p, s0\<lparr>messageId := i,
                      pendingCommands := (pendingCommands s0)(i \<mapsto> p),
                      wire := wire s0 @ [(i, method, params)],
                      timers := (timers s0)(i \<mapsto> (method, p))\<rparr>)))"

text \<open>
  The timer's callback, for the timer whose closure holds \<open>id\<close>:
  \<^verbatim>\<open>if (this.pendingCommands.has(id)) { this.pendingCommands.delete(id);
      reject(new Error(`Command ${method} timed out`)); }\<close>
  A timer fires once; where no timer is left for the id, nothing runs.
\<close>

definition command_timeout :: "nat \<Rightarrow> CDPClient \<Rightarrow> CDPClient" where
  "command_timeout i s =
     (case timers s i of
        None \<Rightarrow> s
      | Some (method, p) \<Rightarrow>
          (let s' = s\<lparr>timers := (timers s)(i := None)\<rparr>
           in if pendingCommands s' i \<noteq> None
              then settle p (Rejected (''Command '' @ method @ '' timed out''))
                     (s'\<lparr>pendingCommands := (pendingCommands s')(i := None)\<rparr>)
              else s'))"

text \<open>
  The \<open>close\<close> listener that \<open>connectToTarget\<close> gives every socket it creates:
  \<open>this.ws = null; this.targetId = null\<close>. It writes the client's fields whichever
  socket emits the event, the current one or an earlier one that was replaced and
  never closed.
\<close>

definition socket_close_listener :: "CDPClient \<Rightarrow> CDPClient" where
  "socket_close_listener s = s\<lparr>cdp_ws := None, cdp_targetId := None\<rparr>"

text \<open>
  What can happen to a client, in any order: a caller invokes \<open>send\<close>, a frame
  arrives on a socket, a timer fires, \<open>this.ws\<close> changes (a socket is created or
  opens), or a socket that \<open>connectToTarget\<close> created emits \<open>close\<close>. Time is
  not modelled: a timer may fire at any moment after it was set, which includes the
  moment 30 seconds later.
\<close>

datatype event =
    Invoke string json
  | Response message
  | Deadline nat
  | SetSocket "readyState option"
  | SocketClose

fun step :: "event \<Rightarrow> CDPClient \<Rightarrow> CDPClient" where
  "step (Invoke method params) s = snd (CDPClient_send method params s)"
| "step (Response message) s = handleMessage message s"
| "step (Deadline i) s = command_timeout i s"
| "step (SetSocket st) s = s\<lparr>cdp_ws := st\<rparr>"
| "step SocketClose s = socket_close_listener s"

definition run :: "event list \<Rightarrow> CDPClient \<Rightarrow> CDPClient" where
  "run evs s = foldl (\<lambda>s e. step e s) s evs"

text \<open>The settlement a response frame carries, and the events that concern an id.\<close>

definition outcome :: "message \<Rightarrow> settlement" where
  "outcome message =
     (case msg_error message of
        Some e \<Rightarrow> Rejected e
      | None \<Rightarrow> Resolved (msg_result message))"

fun touches :: "nat \<Rightarrow> event \<Rightarrow> bool" where
  "touches i (Response message) = (msg_id message = Some i)"
| "touches i (Deadline j) = (j = i)"
| "touches i (Invoke method params) = False"
| "touches i (SetSocket st) = False"
| "touches i SocketClose = False"

text \<open>What the state of a client satisfies after any run of events.\<close>

definition client_inv :: "CDPClient \<Rightarrow> bool" where
  "client_inv s =
     ((\<forall>i p. pendingCommands s i = Some p \<longrightarrow>
          i \<le> messageId s \<and> p < created s \<and> p \<notin> fst ` set (calls s) \<and>
          (\<exists>method. timers s i = Some (method, p))) \<and>
      (\<forall>i j p. pendingCommands s i = Some p \<and> pendingCommands s j = Some p \<longrightarrow> i = j) \<and>
      (\<forall>i method p. timers s i = Some (method, p) \<longrightarrow> i \<le> messageId s) \<and>
      (\<forall>c \<in> set (calls s). fst c < created s) \<and>
      distinct (map fst (calls s)))"

subsection \<open>Attaching to a target\<close>

text \<open>
  An entry of Chrome's \<open>/json/list\<close>. \<open>getTargets()\<close> is an HTTP request with a
  five-second timeout, so it always settles: with the listing, or with an error.
  The new socket then emits \<open>open\<close>, or emits \<open>error\<close> and right after it
  \<open>close\<close>, or emits neither, in which case the promise of \<open>connectToTarget\<close>
  never settles.
\<close>

record target =
  target_id :: string
  target_type :: string
  target_title :: string
  target_url :: string
  webSocketDebuggerUrl :: string

datatype cdp_error =
    GetTargetsError string
  | NoSuitableTarget
  | WebSocketError string

datatype handshake = Opens | Fails string | Silent

text \<open>
  \<^verbatim>\<open>const target = targetId
    ? targets.find(t => t.id === targetId)
    : targets.find(t => t.type === 'page');\<close>
  An argument left out is \<open>None\<close>; the empty string is falsy like it.
\<close>

fun find_target :: "string option \<Rightarrow> target list \<Rightarrow> target option" where
  "find_target None targets = find (\<lambda>t. target_type t = ''page'') targets"
| "find_target (Some targetId) targets =
     (if targetId \<noteq> []
      then find (\<lambda>t. target_id t = targetId) targets
      else find (\<lambda>t. target_type t = ''page'') targets)"

text \<open>
  \<open>connectToTarget(targetId)\<close>, given what \<open>getTargets()\<close> settles with and what the
  new socket does. The result is what the returned promise settles with, \<open>None\<close> when
  it never does, and the client's new state; after a failed handshake that is the
  state the socket's \<open>close\<close> listener leaves. \<open>NoSuitableTarget\<close> is
  \<open>new Error('No suitable target found')\<close>.
\<close>

definition connectToTarget ::
  "string option \<Rightarrow> string + target list \<Rightarrow> handshake \<Rightarrow> CDPClient \<Rightarrow>
   (cdp_error + target) option \<times> CDPClient" where
  "connectToTarget targetId listing hs s =
     (case listing of
        Inl e \<Rightarrow> (Some (Inl (GetTargetsError e)), s)
      | Inr targets \<Rightarrow>
          (case find_target targetId targets of
             None \<Rightarrow> (Some (Inl NoSuitableTarget), s)
           | Some target \<Rightarrow>
               (let s1 = s\<lparr>cdp_targetId := Some (target_id target), cdp_ws := Some CONNECTING\<rparr>
                in case hs of
                     Opens \<Rightarrow> (Some (Inr target), s1\<lparr>cdp_ws := Some OPEN\<rparr>)
                   | Fails e \<Rightarrow> (Some (Inl (WebSocketError e)), socket_close_listener s1)
                   | Silent \<Rightarrow> (None, s1))))"

text \<open>
  The first entry of a listing that satisfies \<open>P\<close>: it satisfies \<open>P\<close> and no entry
  before it does.
\<close>

definition first_with :: "('a \<Rightarrow> bool) \<Rightarrow> 'a list \<Rightarrow> 'a \<Rightarrow> bool" where
  "first_with P xs x =
     (\<exists>i < length xs. xs ! i = x \<and> P x \<and> (\<forall>j < i. \<not> P (xs ! j)))"

section \<open>Relay core: CDPHost (the Windows host)\<close>

text \<open>
  The envelope between bridge and host. Its id is a string on the wire (the bridge
  builds it as a template string), so \<open>String(id)\<close> is the id itself. A response
  carries \<open>{requestId, result}\<close> or \<open>{requestId, error}\<close> as its payload.
\<close>

record 'p envelope =
  env_id :: string
  direction :: string
  timestamp :: nat
  payload :: 'p

datatype response_payload =
    ResultPayload string json
  | ErrorPayload string string

type_synonym response = "response_payload envelope"

text \<open>The lines that \<open>sendResponse\<close> and \<open>sendError\<close> write to the log.\<close>

datatype log_line =
    DebugSendingResponse string "nat option"
  | WarnNoClientForRequest string
  | WarnNoClientForError string

text \<open>
  \<open>clients\<close> maps a client id to its \<open>WSClient\<close>, \<open>requestToClient\<close> a request id
  to a client id. Client ids start at 1.
\<close>

record CDPHost =
  clients :: "nat \<rightharpoonup> response WSClient"
  requestToClient :: "string \<rightharpoonup> nat"
  clientCounter :: nat
  hlog :: "log_line list"

definition CDPHost_new :: CDPHost where
  "CDPHost_new =
     \<lparr>clients = Map.empty, requestToClient = Map.empty, clientCounter = 0, hlog = []\<rparr>"

text \<open>
  The connection handler: \<open>const clientId = ++this.clientCounter;
  this.clients.set(clientId, client)\<close>.
\<close>

definition onConnection :: "response WSClient \<Rightarrow> CDPHost \<Rightarrow> CDPHost" where
  "onConnection client h =
     (let clientId = clientCounter h + 1
      in h\<lparr>clientCounter := clientId, clients := (clients h)(clientId \<mapsto> client)\<rparr>)"

text \<open>
  The message handler of client \<open>clientId\<close>, up to its \<open>await\<close>:
  \<open>this.requestToClient.set(String(message.id), clientId)\<close>. The tool call it then
  starts ends later, in \<open>sendResponse\<close> or \<open>sendError\<close>.
\<close>

definition onMessage :: "nat \<Rightarrow> 'p envelope \<Rightarrow> CDPHost \<Rightarrow> CDPHost" where
  "onMessage clientId message h =
     h\<lparr>requestToClient := (requestToClient h)(env_id message \<mapsto> clientId)\<rparr>"

text \<open>
  The close handler of client \<open>clientId\<close>:
  \<^verbatim>\<open>this.clients.delete(clientId);
  for (const [reqId, cId] of this.requestToClient) {
    if (cId === clientId) { this.requestToClient.delete(reqId); } }\<close>
\<close>

definition onClose :: "nat \<Rightarrow> CDPHost \<Rightarrow> CDPHost" where
  "onClose clientId h =
     h\<lparr>clients := (clients h)(clientId := None),
       requestToClient :=
         (\<lambda>reqId. if requestToClient h reqId = Some clientId then None
                  else requestToClient h reqId)\<rparr>"

text \<open>
  \<^verbatim>\<open>const clientId = this.requestToClient.get(String(id));
  const client = clientId ? this.clients.get(clientId) : null;\<close>
  The result is the client id together with the client, when both exist.
\<close>

definition client_for :: "CDPHost \<Rightarrow> string \<Rightarrow> (nat \<times> response WSClient) option" where
  "client_for h rid =
     (case requestToClient h rid of
        None \<Rightarrow> None
      | Some clientId \<Rightarrow>
          (if clientId \<noteq> 0
           then (case clients h clientId of
                   None \<Rightarrow> None
                 | Some client \<Rightarrow> Some (clientId, client))
           else None))"

text \<open>
  \<open>sendResponse(id, result)\<close> and \<open>sendError(id, error)\<close>; \<open>now\<close> is what
  \<open>Date.now()\<close> returns. Without a client the function logs a warning and returns,
  before the line that deletes the route.
\<close>

definition sendResponse :: "nat \<Rightarrow> string \<Rightarrow> json \<Rightarrow> CDPHost \<Rightarrow> CDPHost" where
  "sendResponse now rid result h =
     (let h1 = h\<lparr>hlog := hlog h @ [DebugSendingResponse rid (requestToClient h rid)]\<rparr>
      in case client_for h rid of
           None \<Rightarrow> h1\<lparr>hlog := hlog h1 @ [WarnNoClientForRequest rid]\<rparr>
         | Some (clientId, client) \<Rightarrow>
             h1\<lparr>requestToClient := (requestToClient h1)(rid := None),
                clients := (clients h1)(clientId \<mapsto>
                  WSClient_send
                    \<lparr>env_id = rid, direction = ''from-chrome'', timestamp = now,
                     payload = ResultPayload rid result\<rparr> client)\<rparr>)"

definition sendError :: "nat \<Rightarrow> string \<Rightarrow> string \<Rightarrow> CDPHost \<Rightarrow> CDPHost" where
  "sendError now rid error h =
     (case client_for h rid of
        None \<Rightarrow> h\<lparr>hlog := hlog h @ [WarnNoClientForError rid]\<rparr>
      | Some (clientId, client) \<Rightarrow>
          h\<lparr>requestToClient := (requestToClient h)(rid := None),
            clients := (clients h)(clientId \<mapsto>
              WSClient_send
                \<lparr>env_id = rid, direction = ''from-chrome'', timestamp = now,
                 payload = ErrorPayload rid error\<rparr> client)\<rparr>)"

subsection \<open>The host among its sessions\<close>

text \<open>
  A tool call ends in the \<open>try\<close> block with \<open>sendResponse(bridgeMessage.id, result)\<close>
  or in the \<open>catch\<close> block with \<open>sendError(bridgeMessage.id, error.message)\<close>.
\<close>

datatype tool_outcome = Done json | Failed string

definition complete :: "nat \<Rightarrow> string \<Rightarrow> tool_outcome \<Rightarrow> CDPHost \<Rightarrow> CDPHost" where
  "complete now rid out h =
     (case out of
        Done result \<Rightarrow> sendResponse now rid result h
      | Failed error \<Rightarrow> sendError now rid error h)"

text \<open>
  The host together with the tool calls that have started and not ended: for each
  the id of its \<open>bridgeMessage\<close> and, for stating where a response ought to go, the
  client whose message started it. The code keeps no such origin.
\<close>

record relay =
  host :: CDPHost
  inflight :: "(string \<times> nat) list"

definition relay_new :: relay where
  "relay_new = \<lparr>host = CDPHost_new, inflight = []\<rparr>"

text \<open>
  What happens to a host, in any order. A bridge connects; its socket is open then.
  A message arrives from a client. A client's socket begins to close, which changes
  its \<open>readyState\<close> before any \<open>close\<close> event. A client's socket emits \<open>close\<close>.
  The tool call at some position among those in flight ends, at some time \<open>now\<close>.
  A \<open>WSClient\<close> gets its handlers when it is accepted and its socket emits nothing
  after \<open>close\<close>, so events of a client that is not in \<open>clients\<close> do not occur.
\<close>

datatype 'p host_event =
    Connection
  | Message nat "'p envelope"
  | SocketClosing nat
  | Close nat
  | Complete nat tool_outcome nat

fun relay_step :: "'p host_event \<Rightarrow> relay \<Rightarrow> relay" where
  "relay_step Connection s =
     s\<lparr>host := onConnection \<lparr>wsc_ws = \<lparr>readyState = OPEN, transmitted = []\<rparr>\<rparr> (host s)\<rparr>"
| "relay_step (Message clientId message) s =
     (if clients (host s) clientId = None then s
      else s\<lparr>host := onMessage clientId message (host s),
             inflight := inflight s @ [(env_id message, clientId)]\<rparr>)"
| "relay_step (SocketClosing clientId) s =
     (case clients (host s) clientId of
        None \<Rightarrow> s
      | Some client \<Rightarrow>
          s\<lparr>host := (host s)\<lparr>clients := (clients (host s))(clientId \<mapsto>
                 client\<lparr>wsc_ws := (wsc_ws client)\<lparr>readyState := CLOSING\<rparr>\<rparr>)\<rparr>\<rparr>)"
| "relay_step (Close clientId) s =
     (if clients (host s) clientId = None then s
      else s\<lparr>host := onClose clientId (host s)\<rparr>)"
| "relay_step (Complete k out now) s =
     (if k < length (inflight s)
      then s\<lparr>host := complete now (fst (inflight s ! k)) out (host s),
             inflight := take k (inflight s) @ drop (Suc k) (inflight s)\<rparr>
      else s)"

definition relay_run :: "'p host_event list \<Rightarrow> relay \<Rightarrow> relay" where
  "relay_run evs s = foldl (\<lambda>s e. relay_step e s) s evs"

text \<open>
  A run in which no request arrives under an id that a tool call in flight already
  bears.
\<close>

fun collision_free :: "relay \<Rightarrow> 'p host_event list \<Rightarrow> bool" where
  "collision_free s [] = True"
| "collision_free s (e # es) =
     ((case e of
         Message clientId message \<Rightarrow> env_id message \<notin> fst ` set (inflight s)
       | _ \<Rightarrow> True) \<and>
      collision_free (relay_step e s) es)"

text \<open>The envelopes a client's socket has been handed.\<close>

definition delivered :: "CDPHost \<Rightarrow> nat \<Rightarrow> response list" where
  "delivered h clientId =
     (case clients h clientId of
        None \<Rightarrow> []
      | Some client \<Rightarrow> transmitted (wsc_ws client))"

text \<open>Every route leads to a client that is connected, and no client has the id 0.\<close>

definition routes_live :: "CDPHost \<Rightarrow> bool" where
  "routes_live h =
     ((\<forall>reqId clientId. requestToClient h reqId = Some clientId \<longrightarrow>
          clients h clientId \<noteq> None) \<and>
      clients h 0 = None)"

text \<open>
  In a run without colliding ids: the calls in flight bear distinct ids, a route
  exists exactly for the calls in flight whose client is connected and leads to that
  client, and every client id in use is between 1 and the counter.
\<close>

definition relay_inv :: "relay \<Rightarrow> bool" where
  "relay_inv s =
     (distinct (map fst (inflight s)) \<and>
      (\<forall>reqId clientId.
         requestToClient (host s) reqId = Some clientId \<longleftrightarrow>
         (reqId, clientId) \<in> set (inflight s) \<and> clients (host s) clientId \<noteq> None) \<and>
      (\<forall>clientId. clients (host s) clientId \<noteq> None \<longrightarrow>
         0 < clientId \<and> clientId \<le> clientCounter (host s)) \<and>
      (\<forall>c \<in> set (inflight s). snd c \<le> clientCounter (host s)))"

section \<open>Transport bridge: WSLBridge (wsl-bridge) and UnixSocketClient\<close>











section \<open>Properties of the framing codec\<close>

lemma le_bytes:
  fixes v :: nat
  assumes "v < 4294967296"
  shows "v mod 256 + 256 * (v div 256 mod 256) + 65536 * (v div 65536 mod 256) +
         16777216 * (v div 16777216 mod 256) = v"
proof -
  define b where "b = v div 256"
  define c where "c = b div 256"
  define d where "d = c div 256"
  have e1: "v = 256 * b + v mod 256" unfolding b_def by simp
  have e2: "b = 256 * c + b mod 256" unfolding c_def by simp
  have e3: "c = 256 * d + c mod 256" unfolding d_def by simp
  have c: "v div 65536 = c" unfolding c_def b_def by (simp add: div_mult2_eq)
  have d: "v div 16777216 = d" unfolding d_def c_def b_def by (simp add: div_mult2_eq)
  have "d < 256" using assms unfolding d [symmetric] by simp
  then have d': "d mod 256 = d" by simp
  show ?thesis unfolding c d b_def [symmetric] d' using e1 e2 e3 by linarith
qed

lemma unat_byte: "unat (of_nat k :: byte) = k mod 256"
  by (simp add: unat_of_nat)

lemma read_write:
  assumes "writeUInt32LE v = Inr lb"
  shows "readUInt32LE (lb @ rest) = v"
proof -
  from assms have v: "v < 4294967296"
    and lb: "lb = [of_nat v, of_nat (v div 256), of_nat (v div 65536), of_nat (v div 16777216)]"
    by (auto simp: writeUInt32LE_def split: if_splits)
  have "readUInt32LE (lb @ rest) =
        unat (of_nat v :: byte) + 256 * unat (of_nat (v div 256) :: byte) +
        65536 * unat (of_nat (v div 65536) :: byte) +
        16777216 * unat (of_nat (v div 16777216) :: byte)"
    unfolding lb readUInt32LE_def by simp
  also have "\<dots> = v" unfolding unat_byte by (rule le_bytes [OF v])
  finally show ?thesis .
qed


lemma writeUInt32LE_length: "writeUInt32LE v = Inr lb \<Longrightarrow> length lb = 4"
  by (auto simp: writeUInt32LE_def split: if_splits)

lemma process_buffer_incomplete:
  "incomplete (buffer s) \<Longrightarrow> process_buffer parse s = s"
  by (subst process_buffer.simps) (auto simp: incomplete_def Let_def)

lemma process_buffer_complete:
  assumes "4 \<le> length (buffer s)" and "4 + readUInt32LE (buffer s) \<le> length (buffer s)"
  shows "process_buffer parse s =
         process_buffer parse
           (deliver parse (take (readUInt32LE (buffer s)) (drop 4 (buffer s)))
              (s\<lparr>buffer := drop (4 + readUInt32LE (buffer s)) (buffer s)\<rparr>))"
  using assms by (subst process_buffer.simps) (simp add: Let_def)

lemma deliver_buffer_update:
  "deliver parse mb (s\<lparr>buffer := b\<rparr>) = (deliver parse mb s)\<lparr>buffer := b\<rparr>"
  by (simp add: deliver_def split: option.splits)

lemma process_buffer_frame:
  assumes lb: "writeUInt32LE (length body) = Inr lb" and b: "buffer s = lb @ body @ rest"
  shows "process_buffer parse s = process_buffer parse (deliver parse body (s\<lparr>buffer := rest\<rparr>))"
proof -
  have l4: "length lb = 4" using lb by (rule writeUInt32LE_length)
  have r: "readUInt32LE (buffer s) = length body"
    unfolding b using read_write [OF lb] by simp
  have "process_buffer parse s =
        process_buffer parse
           (deliver parse (take (readUInt32LE (buffer s)) (drop 4 (buffer s)))
              (s\<lparr>buffer := drop (4 + readUInt32LE (buffer s)) (buffer s)\<rparr>))"
    by (rule process_buffer_complete) (simp_all add: r, simp_all add: b l4)
  then show ?thesis unfolding r by (simp add: b l4)
qed

lemma readUInt32LE_append:
  "4 \<le> length b \<Longrightarrow> readUInt32LE (b @ c) = readUInt32LE b"
  by (auto simp: readUInt32LE_def nth_append)

lemma process_buffer_append:
  "process_buffer parse ((process_buffer parse s)\<lparr>buffer := buffer (process_buffer parse s) @ c\<rparr>)
   = process_buffer parse (s\<lparr>buffer := buffer s @ c\<rparr>)"
proof (induction parse s rule: process_buffer.induct)
  case (1 parse s)
  show ?case
  proof (cases "4 \<le> length (buffer s) \<and> 4 + readUInt32LE (buffer s) \<le> length (buffer s)")
    case True
    define L where "L = readUInt32LE (buffer s)"
    define t where "t = deliver parse (take L (drop 4 (buffer s))) (s\<lparr>buffer := drop (4 + L) (buffer s)\<rparr>)"
    have ps: "process_buffer parse s = process_buffer parse t"
      unfolding t_def L_def using True by (intro process_buffer_complete) simp_all
    have IH: "process_buffer parse ((process_buffer parse t)\<lparr>buffer := buffer (process_buffer parse t) @ c\<rparr>)
              = process_buffer parse (t\<lparr>buffer := buffer t @ c\<rparr>)"
      unfolding t_def L_def using True by (intro "1.IH") (simp_all add: Let_def)
    let ?s' = "s\<lparr>buffer := buffer s @ c\<rparr>"
    have r': "readUInt32LE (buffer ?s') = L"
      using True by (simp add: readUInt32LE_append L_def)
    have "process_buffer parse ?s' =
          process_buffer parse
           (deliver parse (take (readUInt32LE (buffer ?s')) (drop 4 (buffer ?s')))
              (?s'\<lparr>buffer := drop (4 + readUInt32LE (buffer ?s')) (buffer ?s')\<rparr>))"
      using True by (intro process_buffer_complete) (simp_all add: readUInt32LE_append)
    also have "\<dots> = process_buffer parse (t\<lparr>buffer := buffer t @ c\<rparr>)"
      unfolding r' using True by (simp add: t_def L_def deliver_buffer_update)
    finally show ?thesis using ps IH by simp
  next
    case False
    then have "incomplete (buffer s)" by (auto simp: incomplete_def)
    then show ?thesis by (simp add: process_buffer_incomplete)
  qed
qed

lemma feed_concat:
  "feed parse chunks (process_buffer parse s)
   = process_buffer parse (s\<lparr>buffer := buffer s @ concat chunks\<rparr>)"
proof (induction chunks arbitrary: s)
  case Nil
  then show ?case by (simp add: feed_def)
next
  case (Cons c cs)
  have "feed parse (c # cs) (process_buffer parse s)
        = feed parse cs (process_buffer parse (s\<lparr>buffer := buffer s @ c\<rparr>))"
    by (simp add: feed_def handleData_def process_buffer_append)
  also have "\<dots> = process_buffer parse (s\<lparr>buffer := buffer s @ c @ concat cs\<rparr>)"
    using Cons.IH [of "s\<lparr>buffer := buffer s @ c\<rparr>"] by simp
  finally show ?case by simp
qed


lemma frame_eq: "writeUInt32LE (length body) = Inr lb \<Longrightarrow> frame body = lb @ body"
  by (simp add: frame_def)

lemma writeUInt32LE_ok: "v \<le> 4294967295 \<Longrightarrow> \<exists>lb. writeUInt32LE v = Inr lb"
  by (simp add: writeUInt32LE_def)

lemma received_buffer_update:
  "s\<lparr>received := r, buffer := b\<rparr> = s\<lparr>buffer := b, received := r\<rparr>"
  by (cases s) simp

lemma process_buffer_messages:
  assumes "\<forall>m \<in> set ms. parse (stringify m) = Some m \<and> length (stringify m) \<le> 4294967295"
    and "incomplete rest"
  shows "process_buffer parse (s\<lparr>buffer := concat (map (\<lambda>m. frame (stringify m)) ms) @ rest\<rparr>)
         = s\<lparr>buffer := rest, received := received s @ ms\<rparr>"
  using assms
proof (induction ms arbitrary: s)
  case Nil
  then show ?case by (simp add: process_buffer_incomplete)
next
  case (Cons m ms)
  obtain lb where lb: "writeUInt32LE (length (stringify m)) = Inr lb"
    using Cons.prems writeUInt32LE_ok by fastforce
  let ?more = "concat (map (\<lambda>m. frame (stringify m)) ms) @ rest"
  have p: "parse (stringify m) = Some m" using Cons.prems by simp
  have "process_buffer parse (s\<lparr>buffer := concat (map (\<lambda>m. frame (stringify m)) (m # ms)) @ rest\<rparr>)
        = process_buffer parse (deliver parse (stringify m)
            (s\<lparr>buffer := concat (map (\<lambda>m. frame (stringify m)) (m # ms)) @ rest, buffer := ?more\<rparr>))"
    by (rule process_buffer_frame [OF lb]) (simp add: frame_eq [OF lb])
  also have "\<dots> = process_buffer parse ((s\<lparr>received := received s @ [m]\<rparr>)\<lparr>buffer := ?more\<rparr>)"
    by (simp add: deliver_def p received_buffer_update)
  also have "\<dots> = s\<lparr>received := received s @ [m]\<rparr>\<lparr>buffer := rest, received := received (s\<lparr>received := received s @ [m]\<rparr>) @ ms\<rparr>"
    using Cons.prems by (intro Cons.IH) simp_all
  finally show ?case by simp
qed

lemma send_within:
  "length (stringify m) \<le> MAX_MESSAGE_SIZE \<Longrightarrow>
   NativeMessaging_send stringify m s = s\<lparr>stdout := stdout s @ frame (stringify m)\<rparr>"
  by (simp add: NativeMessaging_send_def frame_def writeUInt32LE_def MAX_MESSAGE_SIZE_def Let_def)

lemma send_above:
  "MAX_MESSAGE_SIZE < length (stringify m) \<Longrightarrow>
   NativeMessaging_send stringify m s = s\<lparr>errors := errors s @ [MessageTooLarge (length (stringify m))]\<rparr>"
  by (simp add: NativeMessaging_send_def Let_def)

lemma sends_effect:
  "sends stringify ms s =
     s\<lparr>stdout := stdout s @
               concat (map (\<lambda>m. frame (stringify m))
                 (filter (\<lambda>m. length (stringify m) \<le> MAX_MESSAGE_SIZE) ms)),
       errors := errors s @
               map (\<lambda>m. MessageTooLarge (length (stringify m)))
                 (filter (\<lambda>m. \<not> length (stringify m) \<le> MAX_MESSAGE_SIZE) ms)\<rparr>"
proof (induction ms arbitrary: s)
  case Nil
  then show ?case by (simp add: sends_def)
next
  case (Cons m ms)
  have step: "sends stringify (m # ms) s = sends stringify ms (NativeMessaging_send stringify m s)"
    by (simp add: sends_def)
  show ?case
  proof (cases "length (stringify m) \<le> MAX_MESSAGE_SIZE")
    case True
    then show ?thesis unfolding step Cons.IH by (simp add: send_within)
  next
    case False
    then show ?thesis unfolding step Cons.IH by (simp add: send_above)
  qed
qed

text \<open>
  C6. Let any messages \<open>ms\<close> be sent in order, where \<open>JSON.parse\<close> inverts
  \<open>JSON.stringify\<close> on those whose body is within the cap, and let the bytes
  written, followed by any incomplete frame \<open>rest\<close>, reach the decoder cut into
  chunks in any way. Then the decoder hands over exactly
  the messages whose body is within the 1 MiB cap, in order, and keeps \<open>rest\<close>
  in its buffer; the output stream holds the frames of those messages and nothing
  else; and each message above the cap produced one size error and no output.
\<close>

theorem codec_roundtrip:
  assumes parse: "\<forall>m \<in> set ms. length (stringify m) \<le> MAX_MESSAGE_SIZE \<longrightarrow>
                   parse (stringify m) = Some m"
    and empty: "buffer rx = []"
    and chunks: "concat chunks = stdout (sends stringify ms NativeMessaging_new) @ rest"
    and rest: "incomplete rest"
  shows "feed parse chunks rx =
           rx\<lparr>buffer := rest,
              received := received rx @
                filter (\<lambda>m. length (stringify m) \<le> MAX_MESSAGE_SIZE) ms\<rparr> \<and>
         stdout (sends stringify ms NativeMessaging_new) =
           concat (map (\<lambda>m. frame (stringify m))
             (filter (\<lambda>m. length (stringify m) \<le> MAX_MESSAGE_SIZE) ms)) \<and>
         errors (sends stringify ms NativeMessaging_new) =
           map (\<lambda>m. MessageTooLarge (length (stringify m)))
             (filter (\<lambda>m. \<not> length (stringify m) \<le> MAX_MESSAGE_SIZE) ms)"
proof (intro conjI)
  let ?ok = "filter (\<lambda>m. length (stringify m) \<le> MAX_MESSAGE_SIZE) ms"
  show out: "stdout (sends stringify ms NativeMessaging_new) = concat (map (\<lambda>m. frame (stringify m)) ?ok)"
    by (simp add: sends_effect NativeMessaging_new_def)
  show "errors (sends stringify ms NativeMessaging_new) =
           map (\<lambda>m. MessageTooLarge (length (stringify m)))
             (filter (\<lambda>m. \<not> length (stringify m) \<le> MAX_MESSAGE_SIZE) ms)"
    by (simp add: sends_effect NativeMessaging_new_def)
  have rx: "process_buffer parse rx = rx"
    by (rule process_buffer_incomplete) (simp add: empty incomplete_def)
  have "feed parse chunks rx = feed parse chunks (process_buffer parse rx)"
    by (simp add: rx)
  also have "\<dots> = process_buffer parse (rx\<lparr>buffer := concat (map (\<lambda>m. frame (stringify m)) ?ok) @ rest\<rparr>)"
    unfolding feed_concat by (simp add: empty chunks out)
  also have "\<dots> = rx\<lparr>buffer := rest, received := received rx @ ?ok\<rparr>"
    using parse rest by (intro process_buffer_messages) (auto simp: MAX_MESSAGE_SIZE_def)
  finally show "feed parse chunks rx = rx\<lparr>buffer := rest, received := received rx @ ?ok\<rparr>" .
qed

theorem codec_roundtrip_witness:
  "feed Some [[3, 0], [0, 0, 1, 2], [3, 1, 0, 0, 0, 7, 9]] (NativeMessaging_new :: (byte list) NativeMessaging)
     = NativeMessaging_new\<lparr>buffer := [9], received := [[1, 2, 3], [7]]\<rparr> \<and>
   stdout (sends id [[1, 2, 3], replicate 1048577 0, [7]] (NativeMessaging_new :: (byte list) NativeMessaging))
     = [3, 0, 0, 0, 1, 2, 3, 1, 0, 0, 0, 7] \<and>
   errors (sends id [[1, 2, 3], replicate 1048577 0, [7]] (NativeMessaging_new :: (byte list) NativeMessaging))
     = [MessageTooLarge 1048577]"
proof -
  have out: "stdout (sends id [[1, 2, 3], replicate 1048577 0, [7]] (NativeMessaging_new :: (byte list) NativeMessaging))
     = [3, 0, 0, 0, 1, 2, 3, 1, 0, 0, 0, 7]"
    by (simp add: sends_def NativeMessaging_send_def NativeMessaging_new_def
        MAX_MESSAGE_SIZE_def writeUInt32LE_def Let_def)
  have inc: "incomplete [9 :: byte]" by (simp add: incomplete_def)
  have "concat [[3, 0], [0, 0, 1, 2], [3, 1, 0, 0, 0, 7, 9 :: byte]] =
        stdout (sends id [[1, 2, 3], replicate 1048577 0, [7]] (NativeMessaging_new :: (byte list) NativeMessaging)) @ [9]"
    unfolding out by simp
  from codec_roundtrip [of "[[1, 2, 3], replicate 1048577 0, [7]]" id Some
      "NativeMessaging_new :: (byte list) NativeMessaging"
      "[[3, 0], [0, 0, 1, 2], [3, 1, 0, 0, 0, 7, 9]]" "[9]", OF _ _ this inc]
  show ?thesis
    by (simp add: NativeMessaging_new_def MAX_MESSAGE_SIZE_def frame_def writeUInt32LE_def)
qed

section \<open>Properties of the WebSocket wrappers\<close>

lemma WSClient_send_not_open:
  "readyState (wsc_ws c) \<noteq> OPEN \<Longrightarrow> WSClient_send m c = c"
  by (simp add: WSClient_send_def)

lemma WebSocketClient_send_not_open:
  "\<not> isConnected c \<Longrightarrow> WebSocketClient_send m c = c"
  by (simp add: WebSocketClient_send_def)

lemma isConnected_open:
  "isConnected c \<Longrightarrow> \<exists>w. ws c = Some w \<and> readyState w = OPEN"
  by (auto simp: isConnected_def split: option.splits)

text \<open>
  C10. A send on either wrapper while the underlying socket is not OPEN (for the
  bridge's client also while there is no socket at all) returns the wrapper unchanged:
  nothing is transmitted and nothing is kept for later.
\<close>

theorem send_not_open_discards:
  "(readyState (wsc_ws h) \<noteq> OPEN \<longrightarrow> WSClient_send m h = h) \<and>
   ((\<forall>w. ws c = Some w \<longrightarrow> readyState w \<noteq> OPEN) \<longrightarrow> WebSocketClient_send m' c = c)"
proof (intro conjI impI)
  assume "readyState (wsc_ws h) \<noteq> OPEN"
  then show "WSClient_send m h = h" by (rule WSClient_send_not_open)
next
  assume "\<forall>w. ws c = Some w \<longrightarrow> readyState w \<noteq> OPEN"
  then have "\<not> isConnected c" using isConnected_open by blast
  then show "WebSocketClient_send m' c = c" by (rule WebSocketClient_send_not_open)
qed

theorem send_not_open_discards_witness:
  "WSClient_send (1::nat) \<lparr>wsc_ws = \<lparr>readyState = CLOSED, transmitted = [0]\<rparr>\<rparr>
     = \<lparr>wsc_ws = \<lparr>readyState = CLOSED, transmitted = [0]\<rparr>\<rparr> \<and>
   WebSocketClient_send (1::nat)
     \<lparr>ws = Some \<lparr>readyState = CONNECTING, transmitted = []\<rparr>, reconnectAttempts = 0,
      shouldReconnect = True, connected = True, dropped = []\<rparr>
     = \<lparr>ws = Some \<lparr>readyState = CONNECTING, transmitted = []\<rparr>, reconnectAttempts = 0,
        shouldReconnect = True, connected = True, dropped = []\<rparr>"
  using send_not_open_discards
    [of "\<lparr>wsc_ws = \<lparr>readyState = CLOSED, transmitted = [0::nat]\<rparr>\<rparr>" 1
        "\<lparr>ws = Some \<lparr>readyState = CONNECTING, transmitted = []\<rparr>, reconnectAttempts = 0,
          shouldReconnect = True, connected = True, dropped = []\<rparr>" "1::nat"]
  by simp

subsection \<open>The reconnect loop\<close>

lemma on_close_fields:
  "on_close c =
     (if shouldReconnect c \<and> reconnectAttempts c < MAX_RECONNECT_ATTEMPTS
      then (fst (on_close c), Some (reconnect_delay (Suc (reconnectAttempts c))))
      else (fst (on_close c), None))"
  by (simp add: on_close_def attemptReconnect_def Let_def)

lemma on_close_shouldReconnect [simp]:
  "shouldReconnect (fst (on_close c)) = shouldReconnect c"
  by (simp add: on_close_def attemptReconnect_def Let_def)

lemma on_close_attempts:
  "reconnectAttempts (fst (on_close c)) =
     (if shouldReconnect c \<and> reconnectAttempts c < MAX_RECONNECT_ATTEMPTS
      then Suc (reconnectAttempts c) else reconnectAttempts c)"
  by (simp add: on_close_def attemptReconnect_def Let_def)

lemma reconnect_timer_fields [simp]:
  "shouldReconnect (reconnect_timer c) = shouldReconnect c"
  "reconnectAttempts (reconnect_timer c) = reconnectAttempts c"
  by (simp_all add: reconnect_timer_def connect_def)

lemma reconnect_loop_stop:
  "on_close c = (c', None) \<Longrightarrow> reconnect_loop (Suc n) c = ([], c')"
  by simp

lemma reconnect_loop_go:
  "on_close c = (c', Some d) \<Longrightarrow>
   reconnect_loop (Suc n) c =
     (d # fst (reconnect_loop n (reconnect_timer c')),
      snd (reconnect_loop n (reconnect_timer c')))"
  by (simp split: prod.splits)

text \<open>
  The timers the loop sets, from attempt count \<open>a\<close>: one for each of the counts
  \<open>a + 1, a + 2, \<dots>\<close>, as long as failures remain and the count is below the maximum.
\<close>

lemma reconnect_loop_delays:
  "fst (reconnect_loop n c) =
     (if shouldReconnect c
      then map reconnect_delay
             [Suc (reconnectAttempts c) ..<
              Suc (reconnectAttempts c) + min n (MAX_RECONNECT_ATTEMPTS - reconnectAttempts c)]
      else [])"
proof (induction n arbitrary: c)
  case 0
  then show ?case by simp
next
  case (Suc n)
  show ?case
  proof (cases "shouldReconnect c \<and> reconnectAttempts c < MAX_RECONNECT_ATTEMPTS")
    case True
    have oc: "on_close c = (fst (on_close c), Some (reconnect_delay (Suc (reconnectAttempts c))))"
      using True on_close_fields [of c] by auto
    have ra: "reconnectAttempts (fst (on_close c)) = Suc (reconnectAttempts c)"
      using True by (simp add: on_close_attempts)
    have "fst (reconnect_loop (Suc n) c) =
            reconnect_delay (Suc (reconnectAttempts c)) #
            fst (reconnect_loop n (reconnect_timer (fst (on_close c))))"
      using reconnect_loop_go [OF oc] by simp
    also have "fst (reconnect_loop n (reconnect_timer (fst (on_close c)))) =
        map reconnect_delay [Suc (Suc (reconnectAttempts c)) ..<
           Suc (Suc (reconnectAttempts c)) +
           min n (MAX_RECONNECT_ATTEMPTS - Suc (reconnectAttempts c))]"
      using Suc.IH [of "reconnect_timer (fst (on_close c))"] True ra by simp
    finally have step: "fst (reconnect_loop (Suc n) c) =
        reconnect_delay (Suc (reconnectAttempts c)) #
        map reconnect_delay [Suc (Suc (reconnectAttempts c)) ..<
           Suc (Suc (reconnectAttempts c)) +
           min n (MAX_RECONNECT_ATTEMPTS - Suc (reconnectAttempts c))]" .
    have m: "min (Suc n) (MAX_RECONNECT_ATTEMPTS - reconnectAttempts c) =
             Suc (min n (MAX_RECONNECT_ATTEMPTS - Suc (reconnectAttempts c)))"
      using True by arith
    have u: "[Suc a ..< Suc a + Suc k] = Suc a # [Suc (Suc a) ..< Suc (Suc a) + k]"
      for a k :: nat
      by (simp add: upt_conv_Cons)
    have "map reconnect_delay [Suc (reconnectAttempts c) ..<
              Suc (reconnectAttempts c) +
              min (Suc n) (MAX_RECONNECT_ATTEMPTS - reconnectAttempts c)]
          = fst (reconnect_loop (Suc n) c)"
      unfolding step m u by (simp only: list.map)
    then show ?thesis using True by (simp only: if_True)
  next
    case False
    then have "on_close c = (fst (on_close c), None)"
      using on_close_fields [of c] by auto
    then have "fst (reconnect_loop (Suc n) c) = []"
      using reconnect_loop_stop [of c "fst (on_close c)" n] by simp
    then show ?thesis using False by auto
  qed
qed

lemma reconnect_loop_attempts:
  "reconnectAttempts (snd (reconnect_loop n c)) =
     (if shouldReconnect c
      then reconnectAttempts c + min n (MAX_RECONNECT_ATTEMPTS - reconnectAttempts c)
      else reconnectAttempts c)"
proof (induction n arbitrary: c)
  case 0
  then show ?case by simp
next
  case (Suc n)
  show ?case
  proof (cases "shouldReconnect c \<and> reconnectAttempts c < MAX_RECONNECT_ATTEMPTS")
    case True
    have oc: "on_close c = (fst (on_close c), Some (reconnect_delay (Suc (reconnectAttempts c))))"
      using True on_close_fields [of c] by auto
    have ra: "reconnectAttempts (fst (on_close c)) = Suc (reconnectAttempts c)"
      using True by (simp add: on_close_attempts)
    have "snd (reconnect_loop (Suc n) c) =
          snd (reconnect_loop n (reconnect_timer (fst (on_close c))))"
      using reconnect_loop_go [OF oc] by simp
    then have "reconnectAttempts (snd (reconnect_loop (Suc n) c)) =
        Suc (reconnectAttempts c) + min n (MAX_RECONNECT_ATTEMPTS - Suc (reconnectAttempts c))"
      using Suc.IH [of "reconnect_timer (fst (on_close c))"] True ra by simp
    moreover have "Suc a + min n (M - Suc a) = a + min (Suc n) (M - a)"
      if "a < M" for a M :: nat
      using that by arith
    ultimately show ?thesis using True by simp
  next
    case False
    then have oc: "on_close c = (fst (on_close c), None)"
      using on_close_fields [of c] by auto
    then have "snd (reconnect_loop (Suc n) c) = fst (on_close c)"
      using reconnect_loop_stop [of c "fst (on_close c)" n] by simp
    then show ?thesis using False by (auto simp: on_close_attempts)
  qed
qed

lemma reconnect_loop_length:
  "length (fst (reconnect_loop n c)) \<le> MAX_RECONNECT_ATTEMPTS - reconnectAttempts c"
proof (cases "shouldReconnect c")
  case True
  have "length (fst (reconnect_loop n c)) =
        min n (MAX_RECONNECT_ATTEMPTS - reconnectAttempts c)"
    by (simp only: reconnect_loop_delays True if_True length_map length_upt diff_add_inverse)
  then show ?thesis by arith
next
  case False
  then show ?thesis by (simp add: reconnect_loop_delays)
qed

lemma reconnect_loop_delays_form:
  "\<exists>i j. fst (reconnect_loop n c) = map reconnect_delay [i ..< j]"
proof (cases "shouldReconnect c")
  case True
  then have "fst (reconnect_loop n c) =
      map reconnect_delay
        [Suc (reconnectAttempts c) ..<
         Suc (reconnectAttempts c) + min n (MAX_RECONNECT_ATTEMPTS - reconnectAttempts c)]"
    by (simp only: reconnect_loop_delays if_True)
  then show ?thesis by blast
next
  case False
  then have "fst (reconnect_loop n c) = map reconnect_delay [0 ..< 0]"
    by (simp add: reconnect_loop_delays)
  then show ?thesis by blast
qed

lemma reconnect_delay_mono: "j \<le> k \<Longrightarrow> reconnect_delay j \<le> reconnect_delay k"
  by (simp add: reconnect_delay_def min_le_iff_disj)

lemma reconnect_delay_cap: "reconnect_delay k \<le> RECONNECT_DELAY * 5"
  by (simp add: reconnect_delay_def)

lemma sorted_reconnect_delays: "sorted (map reconnect_delay [i ..< j])"
  by (rule sorted_map_mono) (auto simp: mono_on_def reconnect_delay_mono)

lemma attemptReconnect_at_max:
  "MAX_RECONNECT_ATTEMPTS \<le> reconnectAttempts c \<Longrightarrow> attemptReconnect c = (c, None)"
  by (simp add: attemptReconnect_def)

text \<open>
  C7. Against any number \<open>n\<close> of consecutive connection failures, from any state of the
  client: the loop sets at most \<open>MAX_RECONNECT_ATTEMPTS\<close> reconnect timers; their delays
  never decrease from one retry to the next and none exceeds \<open>RECONNECT_DELAY * 5\<close>;
  from a fresh attempt count the delays are those of the attempts \<open>1, 2, \<dots>\<close> up to the
  maximum and the attempt count ends at \<open>min n MAX_RECONNECT_ATTEMPTS\<close>; and at the
  maximum \<open>attemptReconnect\<close> sets no timer and changes nothing, so the loop sets no
  timer however many failures follow.
\<close>

theorem reconnect_loop_capped:
  "length (fst (reconnect_loop n c)) \<le> MAX_RECONNECT_ATTEMPTS \<and>
   sorted (fst (reconnect_loop n c)) \<and>
   (\<forall>d \<in> set (fst (reconnect_loop n c)). d \<le> RECONNECT_DELAY * 5) \<and>
   (shouldReconnect c \<and> reconnectAttempts c = 0 \<longrightarrow>
      fst (reconnect_loop n c) =
        map reconnect_delay [1 ..< Suc (min n MAX_RECONNECT_ATTEMPTS)] \<and>
      reconnectAttempts (snd (reconnect_loop n c)) = min n MAX_RECONNECT_ATTEMPTS) \<and>
   (MAX_RECONNECT_ATTEMPTS \<le> reconnectAttempts c \<longrightarrow>
      attemptReconnect c = (c, None) \<and> fst (reconnect_loop n c) = [])"
proof (intro conjI impI ballI)
  show "length (fst (reconnect_loop n c)) \<le> MAX_RECONNECT_ATTEMPTS"
    using reconnect_loop_length [of n c] by arith
  obtain i j where ds: "fst (reconnect_loop n c) = map reconnect_delay [i ..< j]"
    using reconnect_loop_delays_form by blast
  show "sorted (fst (reconnect_loop n c))"
    unfolding ds by (rule sorted_reconnect_delays)
  show "d \<le> RECONNECT_DELAY * 5" if "d \<in> set (fst (reconnect_loop n c))" for d
  proof -
    from that obtain k where "d = reconnect_delay k" unfolding ds by auto
    then show ?thesis by (simp add: reconnect_delay_cap)
  qed
next
  assume "shouldReconnect c \<and> reconnectAttempts c = 0"
  then show "fst (reconnect_loop n c) =
      map reconnect_delay [1 ..< Suc (min n MAX_RECONNECT_ATTEMPTS)]"
    and "reconnectAttempts (snd (reconnect_loop n c)) = min n MAX_RECONNECT_ATTEMPTS"
    by (simp_all add: reconnect_loop_delays reconnect_loop_attempts)
next
  assume "MAX_RECONNECT_ATTEMPTS \<le> reconnectAttempts c"
  then show "attemptReconnect c = (c, None)" and "fst (reconnect_loop n c) = []"
    by (simp_all add: attemptReconnect_at_max reconnect_loop_delays)
qed

theorem reconnect_loop_capped_witness:
  "length (fst (reconnect_loop 60 (WebSocketClient_new :: nat WebSocketClient))) = 50 \<and>
   sorted (fst (reconnect_loop 60 (WebSocketClient_new :: nat WebSocketClient))) \<and>
   fst (reconnect_loop 7 (WebSocketClient_new :: nat WebSocketClient))
     = [2000, 4000, 6000, 8000, 10000, 10000, 10000] \<and>
   reconnectAttempts (snd (reconnect_loop 60 (WebSocketClient_new :: nat WebSocketClient))) = 50 \<and>
   fst (reconnect_loop 3 (snd (reconnect_loop 60 (WebSocketClient_new :: nat WebSocketClient))))
     = []"
proof -
  have fresh: "shouldReconnect (WebSocketClient_new :: nat WebSocketClient) \<and>
               reconnectAttempts (WebSocketClient_new :: nat WebSocketClient) = 0"
    by (simp add: WebSocketClient_new_def)
  have a: "reconnectAttempts (snd (reconnect_loop 60 (WebSocketClient_new :: nat WebSocketClient)))
           = 50"
    using reconnect_loop_capped [of 60 "WebSocketClient_new :: nat WebSocketClient"] fresh
    by (simp add: MAX_RECONNECT_ATTEMPTS_def)
  have b: "fst (reconnect_loop 7 (WebSocketClient_new :: nat WebSocketClient))
           = [2000, 4000, 6000, 8000, 10000, 10000, 10000]"
    using reconnect_loop_capped [of 7 "WebSocketClient_new :: nat WebSocketClient"] fresh
    by (simp add: MAX_RECONNECT_ATTEMPTS_def reconnect_delay_def RECONNECT_DELAY_def
        upt_conv_Cons)
  have c: "length (fst (reconnect_loop 60 (WebSocketClient_new :: nat WebSocketClient))) = 50"
    using reconnect_loop_capped [of 60 "WebSocketClient_new :: nat WebSocketClient"] fresh
    by (simp add: MAX_RECONNECT_ATTEMPTS_def)
  have d: "fst (reconnect_loop 3
             (snd (reconnect_loop 60 (WebSocketClient_new :: nat WebSocketClient)))) = []"
    using reconnect_loop_capped
      [of 3 "snd (reconnect_loop 60 (WebSocketClient_new :: nat WebSocketClient))"] a
    by (simp add: MAX_RECONNECT_ATTEMPTS_def)
  show ?thesis
    using a b c d reconnect_loop_capped [of 60 "WebSocketClient_new :: nat WebSocketClient"]
    by simp
qed

section \<open>Properties of the remote command client\<close>

lemma socket_close_listener_fields [simp]:
  "pendingCommands (socket_close_listener s) = pendingCommands s"
  "timers (socket_close_listener s) = timers s"
  "calls (socket_close_listener s) = calls s"
  "created (socket_close_listener s) = created s"
  "messageId (socket_close_listener s) = messageId s"
  "wire (socket_close_listener s) = wire s"
  "cdp_ws (socket_close_listener s) = None"
  "cdp_targetId (socket_close_listener s) = None"
  by (simp_all add: socket_close_listener_def)

lemma client_inv_new: "client_inv CDPClient_new"
  by (simp add: client_inv_def CDPClient_new_def)

lemma inv_pendingD:
  "client_inv s \<Longrightarrow> pendingCommands s i = Some p \<Longrightarrow>
   i \<le> messageId s \<and> p < created s \<and> p \<notin> fst ` set (calls s) \<and>
   (\<exists>meth. timers s i = Some (meth, p))"
  unfolding client_inv_def by blast

lemma inv_injD:
  "client_inv s \<Longrightarrow> pendingCommands s i = Some p \<Longrightarrow> pendingCommands s j = Some p \<Longrightarrow> i = j"
  unfolding client_inv_def by blast

lemma inv_timersD:
  "client_inv s \<Longrightarrow> timers s i = Some (meth, p) \<Longrightarrow> i \<le> messageId s"
  unfolding client_inv_def by blast

lemma inv_callsD:
  "client_inv s \<Longrightarrow> (p, v) \<in> set (calls s) \<Longrightarrow> p < created s"
  unfolding client_inv_def by fastforce

lemma inv_distinctD: "client_inv s \<Longrightarrow> distinct (map fst (calls s))"
  unfolding client_inv_def by blast

lemma client_invI:
  assumes "\<And>i p. pendingCommands s i = Some p \<Longrightarrow>
            i \<le> messageId s \<and> p < created s \<and> p \<notin> fst ` set (calls s) \<and>
            (\<exists>meth. timers s i = Some (meth, p))"
    and "\<And>i j p. pendingCommands s i = Some p \<Longrightarrow> pendingCommands s j = Some p \<Longrightarrow> i = j"
    and "\<And>i meth p. timers s i = Some (meth, p) \<Longrightarrow> i \<le> messageId s"
    and "\<And>p v. (p, v) \<in> set (calls s) \<Longrightarrow> p < created s"
    and "distinct (map fst (calls s))"
  shows "client_inv s"
  unfolding client_inv_def
proof (intro conjI allI impI ballI)
  fix c assume "c \<in> set (calls s)"
  then show "fst c < created s" using assms(4) [of "fst c" "snd c"] by simp
qed (use assms in blast)+

text \<open>The operations, case by case.\<close>

lemma send_open:
  "cdp_ws s = Some OPEN \<Longrightarrow>
   CDPClient_send meth params s =
     (created s,
      s\<lparr>created := created s + 1, messageId := messageId s + 1,
        pendingCommands := (pendingCommands s)(messageId s + 1 \<mapsto> created s),
        wire := wire s @ [(messageId s + 1, meth, params)],
        timers := (timers s)(messageId s + 1 \<mapsto> (meth, created s))\<rparr>)"
  by (simp add: CDPClient_send_def Let_def)

lemma send_not_open:
  "cdp_ws s \<noteq> Some OPEN \<Longrightarrow>
   CDPClient_send meth params s =
     (created s,
      s\<lparr>created := created s + 1,
        calls := calls s @ [(created s, Rejected ''Not connected to Chrome'')]\<rparr>)"
  by (simp add: CDPClient_send_def Let_def settle_def)

lemma handleMessage_pending:
  "msg_id m = Some i \<Longrightarrow> pendingCommands s i = Some p \<Longrightarrow>
   handleMessage m s =
     s\<lparr>pendingCommands := (pendingCommands s)(i := None),
       calls := calls s @ [(p, outcome m)]\<rparr>"
  by (simp add: handleMessage_def outcome_def settle_def Let_def split: option.splits)

lemma handleMessage_dropped:
  "msg_id m = None \<or> (\<exists>i. msg_id m = Some i \<and> pendingCommands s i = None) \<Longrightarrow>
   handleMessage m s = s"
  by (auto simp: handleMessage_def)

lemma command_timeout_pending:
  "timers s i = Some (meth, p) \<Longrightarrow> pendingCommands s i \<noteq> None \<Longrightarrow>
   command_timeout i s =
     s\<lparr>timers := (timers s)(i := None),
       pendingCommands := (pendingCommands s)(i := None),
       calls := calls s @ [(p, Rejected (''Command '' @ meth @ '' timed out''))]\<rparr>"
  by (simp add: command_timeout_def settle_def Let_def)

lemma command_timeout_not_pending:
  "pendingCommands s i = None \<Longrightarrow>
   command_timeout i s = s\<lparr>timers := (timers s)(i := None)\<rparr>"
  by (cases "timers s i") (auto simp: command_timeout_def Let_def fun_upd_idem)

lemma client_inv_send:
  assumes "client_inv s"
  shows "client_inv (snd (CDPClient_send meth params s))"
proof (cases "cdp_ws s = Some OPEN")
  case True
  have fresh: "pendingCommands s (Suc (messageId s)) = None"
    using inv_pendingD [OF assms, of "Suc (messageId s)"] by (cases "pendingCommands s (Suc (messageId s))") auto
  have unused: "\<And>j. pendingCommands s j \<noteq> Some (created s)"
    using inv_pendingD [OF assms] by fastforce
  show ?thesis unfolding send_open [OF True] snd_conv
  proof (rule client_invI, goal_cases)
    case (1 i p)
    show ?case
    proof (cases "i = Suc (messageId s)")
      case True
      then have "p = created s" using 1 by simp
      then show ?thesis using True inv_callsD [OF assms, of "created s"] by auto
    next
      case False
      then have "pendingCommands s i = Some p" using 1 by simp
      then show ?thesis using inv_pendingD [OF assms, of i p] False by auto
    qed
  next
    case (2 i j p)
    then show ?case using unused inv_injD [OF assms, of i p j]
      by (cases "i = Suc (messageId s)"; cases "j = Suc (messageId s)") auto
  next
    case (3 i meth p)
    then show ?case using inv_timersD [OF assms, of i meth p]
      by (cases "i = Suc (messageId s)") auto
  next
    case (4 p v)
    then show ?case using inv_callsD [OF assms, of p v] by auto
  next
    case 5
    then show ?case using inv_distinctD [OF assms] by simp
  qed
next
  case False
  show ?thesis unfolding send_not_open [OF False] snd_conv
  proof (rule client_invI, goal_cases)
    case (1 i p)
    then have "pendingCommands s i = Some p" by simp
    then show ?case using inv_pendingD [OF assms, of i p] by auto
  next
    case (2 i j p)
    then show ?case using inv_injD [OF assms, of i p j] by auto
  next
    case (3 i meth p)
    then show ?case using inv_timersD [OF assms, of i meth p] by auto
  next
    case (4 p v)
    then show ?case using inv_callsD [OF assms, of p v] by auto
  next
    case 5
    have "created s \<notin> fst ` set (calls s)" using inv_callsD [OF assms] by fastforce
    then show ?case using inv_distinctD [OF assms] by simp
  qed
qed

lemma client_inv_handleMessage:
  assumes "client_inv s"
  shows "client_inv (handleMessage m s)"
proof (cases "\<exists>i p. msg_id m = Some i \<and> pendingCommands s i = Some p")
  case True
  then obtain i p where i: "msg_id m = Some i" and p: "pendingCommands s i = Some p" by blast
  note ip = inv_pendingD [OF assms p]
  show ?thesis unfolding handleMessage_pending [OF i p]
  proof (rule client_invI, goal_cases)
    case (1 j q)
    then have ji: "j \<noteq> i" and jq: "pendingCommands s j = Some q"
      by (simp_all split: if_splits)
    have "q \<noteq> p" using inv_injD [OF assms jq, of i] p ji by auto
    then show ?case using inv_pendingD [OF assms jq] by auto
  next
    case (2 j k q)
    then have "pendingCommands s j = Some q" and "pendingCommands s k = Some q"
      by (simp_all split: if_splits)
    then show ?case by (rule inv_injD [OF assms])
  next
    case (3 j meth q)
    then have "timers s j = Some (meth, q)" by simp
    then show ?case using inv_timersD [OF assms] by simp
  next
    case (4 q v)
    then have "(q, v) \<in> set (calls s) \<or> q = p" by auto
    then show ?case using inv_callsD [OF assms, of q v] ip by auto
  next
    case 5
    show ?case using inv_distinctD [OF assms] ip by simp
  qed
next
  case False
  then have "handleMessage m s = s"
    by (intro handleMessage_dropped) (cases "msg_id m", auto)
  then show ?thesis using assms by simp
qed

lemma client_inv_command_timeout:
  assumes "client_inv s"
  shows "client_inv (command_timeout i s)"
proof (cases "pendingCommands s i")
  case None
  show ?thesis unfolding command_timeout_not_pending [OF None]
  proof (rule client_invI, goal_cases)
    case (1 j q)
    then have jq: "pendingCommands s j = Some q" by simp
    then have "j \<noteq> i" using None by auto
    then show ?case using inv_pendingD [OF assms jq] by auto
  next
    case (2 j k q)
    then have "pendingCommands s j = Some q" and "pendingCommands s k = Some q"
      by simp_all
    then show ?case by (rule inv_injD [OF assms])
  next
    case (3 j meth q)
    then have "timers s j = Some (meth, q)" by (simp split: if_splits)
    then show ?case using inv_timersD [OF assms] by simp
  next
    case (4 q v)
    then show ?case using inv_callsD [OF assms, of q v] by simp
  next
    case 5
    then show ?case using inv_distinctD [OF assms] by simp
  qed
next
  case (Some p)
  note ip = inv_pendingD [OF assms Some]
  then obtain meth where t: "timers s i = Some (meth, p)" by blast
  have ne: "pendingCommands s i \<noteq> None" using Some by simp
  show ?thesis unfolding command_timeout_pending [OF t ne]
  proof (rule client_invI, goal_cases)
    case (1 j q)
    then have ji: "j \<noteq> i" and jq: "pendingCommands s j = Some q"
      by (simp_all split: if_splits)
    have "q \<noteq> p" using inv_injD [OF assms jq, of i] Some ji by auto
    then show ?case using inv_pendingD [OF assms jq] ji by auto
  next
    case (2 j k q)
    then have "pendingCommands s j = Some q" and "pendingCommands s k = Some q"
      by (simp_all split: if_splits)
    then show ?case by (rule inv_injD [OF assms])
  next
    case (3 j meth q)
    then have "timers s j = Some (meth, q)" by (simp split: if_splits)
    then show ?case using inv_timersD [OF assms] by simp
  next
    case (4 q v)
    then have "(q, v) \<in> set (calls s) \<or> q = p" by auto
    then show ?case using inv_callsD [OF assms, of q v] ip by auto
  next
    case 5
    show ?case using inv_distinctD [OF assms] ip by simp
  qed
qed

lemma client_inv_step: "client_inv s \<Longrightarrow> client_inv (step e s)"
proof (cases e)
  case (SetSocket st)
  assume "client_inv s"
  then show ?thesis unfolding SetSocket client_inv_def by simp
next
  case SocketClose
  assume "client_inv s"
  then show ?thesis unfolding SocketClose client_inv_def by simp
qed (simp_all add: client_inv_send client_inv_handleMessage client_inv_command_timeout)

lemma run_Nil [simp]: "run [] s = s"
  by (simp add: run_def)

lemma run_Cons [simp]: "run (e # evs) s = run evs (step e s)"
  by (simp add: run_def)

lemma run_append [simp]: "run (xs @ ys) s = run ys (run xs s)"
  by (simp add: run_def)

lemma client_inv_run: "client_inv s \<Longrightarrow> client_inv (run evs s)"
  by (induction evs arbitrary: s) (simp_all add: client_inv_step)

lemma untouched_step:
  assumes inv: "client_inv s" and p: "pendingCommands s i = Some p"
    and t: "timers s i = Some (meth, p)" and e: "\<not> touches i e"
  shows "pendingCommands (step e s) i = Some p \<and> timers (step e s) i = Some (meth, p)"
proof (cases e)
  case (Invoke meth' params)
  have "i \<le> messageId s" using inv_pendingD [OF inv p] by simp
  then show ?thesis unfolding Invoke using p t
    by (cases "cdp_ws s = Some OPEN") (simp_all add: send_open send_not_open)
next
  case (Response m)
  show ?thesis
  proof (cases "\<exists>j q. msg_id m = Some j \<and> pendingCommands s j = Some q")
    case True
    then obtain j q where j: "msg_id m = Some j" and q: "pendingCommands s j = Some q" by blast
    have "j \<noteq> i" using e j unfolding Response by simp
    then show ?thesis unfolding Response using p t
      by (simp add: handleMessage_pending [OF j q])
  next
    case False
    then have "handleMessage m s = s"
      by (intro handleMessage_dropped) (cases "msg_id m", auto)
    then show ?thesis unfolding Response using p t by simp
  qed
next
  case (Deadline j)
  then have ji: "j \<noteq> i" using e by simp
  show ?thesis
  proof (cases "pendingCommands s j")
    case None
    then show ?thesis unfolding Deadline using p t ji
      by (simp add: command_timeout_not_pending)
  next
    case (Some q)
    then obtain meth' where "timers s j = Some (meth', q)"
      using inv_pendingD [OF inv Some] by blast
    then show ?thesis unfolding Deadline using p t ji Some
      by (simp add: command_timeout_pending)
  qed
next
  case (SetSocket st)
  then show ?thesis using p t by simp
next
  case SocketClose
  then show ?thesis using p t by simp
qed

lemma untouched_run:
  assumes "client_inv s" and "pendingCommands s i = Some p"
    and "timers s i = Some (meth, p)" and "\<forall>e \<in> set evs. \<not> touches i e"
  shows "pendingCommands (run evs s) i = Some p \<and> timers (run evs s) i = Some (meth, p)"
  using assms
proof (induction evs arbitrary: s)
  case Nil
  then show ?case by simp
next
  case (Cons e evs)
  have "pendingCommands (step e s) i = Some p \<and> timers (step e s) i = Some (meth, p)"
    using Cons.prems by (intro untouched_step) simp_all
  then show ?case using Cons.prems client_inv_step [of s e]
    by (simp add: Cons.IH)
qed

lemma response_step:
  assumes "pendingCommands s i = Some p" and "msg_id m = Some i"
  shows "calls (step (Response m) s) = calls s @ [(p, outcome m)] \<and>
         pendingCommands (step (Response m) s) i = None"
  using assms by (simp add: handleMessage_pending)

lemma deadline_step:
  assumes "pendingCommands s i = Some p" and "timers s i = Some (meth, p)"
  shows "calls (step (Deadline i) s) =
           calls s @ [(p, Rejected (''Command '' @ meth @ '' timed out''))] \<and>
         pendingCommands (step (Deadline i) s) i = None"
  using assms by (simp add: command_timeout_pending)

text \<open>
  Once no entry of the table holds a promise, no later event calls its \<open>resolve\<close> or
  \<open>reject\<close>; and an id that is gone from the table never comes back.
\<close>

lemma released_step:
  assumes inv: "client_inv s" and p: "p < created s"
    and free: "\<forall>j. pendingCommands s j \<noteq> Some p"
  shows "filter (\<lambda>c. fst c = p) (calls (step e s)) = filter (\<lambda>c. fst c = p) (calls s) \<and>
         (\<forall>j. pendingCommands (step e s) j \<noteq> Some p) \<and> p < created (step e s)"
proof (cases e)
  case (Invoke meth params)
  show ?thesis unfolding Invoke using p free
    by (cases "cdp_ws s = Some OPEN") (simp_all add: send_open send_not_open)
next
  case (Response m)
  show ?thesis
  proof (cases "\<exists>j q. msg_id m = Some j \<and> pendingCommands s j = Some q")
    case True
    then obtain j q where j: "msg_id m = Some j" and q: "pendingCommands s j = Some q" by blast
    have "q \<noteq> p" using free q by auto
    then show ?thesis unfolding Response using p free
      by (simp add: handleMessage_pending [OF j q])
  next
    case False
    then have "handleMessage m s = s"
      by (intro handleMessage_dropped) (cases "msg_id m", auto)
    then show ?thesis unfolding Response using p free by simp
  qed
next
  case (Deadline j)
  show ?thesis
  proof (cases "pendingCommands s j")
    case None
    then show ?thesis unfolding Deadline using p free
      by (simp add: command_timeout_not_pending)
  next
    case (Some q)
    then obtain meth' where t: "timers s j = Some (meth', q)"
      using inv_pendingD [OF inv Some] by blast
    have "q \<noteq> p" using free Some by auto
    then show ?thesis unfolding Deadline using p free Some
      by (simp add: command_timeout_pending [OF t])
  qed
next
  case (SetSocket st)
  then show ?thesis using p free by simp
next
  case SocketClose
  then show ?thesis using p free by simp
qed

lemma released_run:
  assumes "client_inv s" and "p < created s" and "\<forall>j. pendingCommands s j \<noteq> Some p"
  shows "filter (\<lambda>c. fst c = p) (calls (run evs s)) = filter (\<lambda>c. fst c = p) (calls s)"
  using assms
proof (induction evs arbitrary: s)
  case Nil
  then show ?case by simp
next
  case (Cons e evs)
  note st = released_step [OF Cons.prems, of e]
  have "filter (\<lambda>c. fst c = p) (calls (run evs (step e s))) =
        filter (\<lambda>c. fst c = p) (calls (step e s))"
    using st Cons.prems(1) by (intro Cons.IH client_inv_step) simp_all
  then show ?case using st by simp
qed

lemma gone_step:
  assumes "i \<le> messageId s" and "pendingCommands s i = None"
  shows "pendingCommands (step e s) i = None \<and> i \<le> messageId (step e s)"
proof (cases e)
  case (Invoke meth params)
  show ?thesis unfolding Invoke using assms
    by (cases "cdp_ws s = Some OPEN") (simp_all add: send_open send_not_open)
next
  case (Response m)
  show ?thesis unfolding Response using assms
    by (auto simp: handleMessage_def settle_def Let_def split: option.splits)
next
  case (Deadline j)
  show ?thesis unfolding Deadline using assms
    by (auto simp: command_timeout_def settle_def Let_def split: option.splits)
next
  case (SetSocket st)
  then show ?thesis using assms by simp
next
  case SocketClose
  then show ?thesis using assms by simp
qed

lemma gone_run:
  assumes "i \<le> messageId s" and "pendingCommands s i = None"
  shows "pendingCommands (run evs s) i = None"
  using assms
proof (induction evs arbitrary: s)
  case Nil
  then show ?case by simp
next
  case (Cons e evs)
  then show ?case using gone_step [OF Cons.prems, of e] by simp
qed

lemma map_of_single_call:
  "filter (\<lambda>c. fst c = p) xs = [(p, v)] \<Longrightarrow> map_of xs p = Some v"
proof (induction xs)
  case Nil
  then show ?case by simp
next
  case (Cons x xs)
  then show ?case by (cases x) (auto split: if_splits)
qed

lemma messageId_step: "messageId s \<le> messageId (step e s)"
proof (cases e)
  case (Invoke meth params)
  show ?thesis unfolding Invoke
    by (cases "cdp_ws s = Some OPEN") (simp_all add: send_open send_not_open)
next
  case (Response m)
  show ?thesis unfolding Response
    by (auto simp: handleMessage_def settle_def Let_def split: option.splits)
next
  case (Deadline j)
  show ?thesis unfolding Deadline
    by (auto simp: command_timeout_def settle_def Let_def split: option.splits)
next
  case (SetSocket st)
  then show ?thesis by simp
next
  case SocketClose
  then show ?thesis by simp
qed

text \<open>
  The state in which \<open>send\<close> leaves its entry, and in which any events that do not
  concern its id leave it.
\<close>

lemma invoke_registered:
  assumes op: "cdp_ws (run pre CDPClient_new) = Some OPEN"
    and snd: "CDPClient_send meth params (run pre CDPClient_new) = (p, s')"
    and before: "\<forall>e \<in> set before. \<not> touches (messageId s') e"
  shows "client_inv (run before s')"
    and "pendingCommands (run before s') (messageId s') = Some p"
    and "timers (run before s') (messageId s') = Some (meth, p)"
    and "filter (\<lambda>c. fst c = p) (calls (run before s')) = []"
    and "messageId s' = Suc (messageId (run pre CDPClient_new))"
    and "wire s' = wire (run pre CDPClient_new) @ [(messageId s', meth, params)]"
proof -
  let ?s = "run pre CDPClient_new"
  have inv: "client_inv ?s" by (rule client_inv_run [OF client_inv_new])
  have s': "s' = snd (CDPClient_send meth params ?s)" using snd by simp
  have inv': "client_inv s'" unfolding s' by (rule client_inv_send [OF inv])
  have p': "pendingCommands s' (messageId s') = Some p"
    and t': "timers s' (messageId s') = Some (meth, p)"
    and m': "messageId s' = Suc (messageId ?s)"
    and w': "wire s' = wire ?s @ [(messageId s', meth, params)]"
    using snd unfolding send_open [OF op] by auto
  show "client_inv (run before s')" by (rule client_inv_run [OF inv'])
  then have inv1: "client_inv (run before s')" .
  show p1: "pendingCommands (run before s') (messageId s') = Some p"
    and "timers (run before s') (messageId s') = Some (meth, p)"
    using untouched_run [OF inv' p' t' before] by simp_all
  have "p \<notin> fst ` set (calls (run before s'))"
    using inv_pendingD [OF inv1 p1] by simp
  then show "filter (\<lambda>c. fst c = p) (calls (run before s')) = []"
    by (auto simp: filter_empty_conv)
  show "messageId s' = Suc (messageId ?s)" by (rule m')
  show "wire s' = wire ?s @ [(messageId s', meth, params)]" by (rule w')
qed

text \<open>
  From the event that removes the entry and makes the one call for its promise, no
  later event makes another, and the entry stays away.
\<close>

lemma settled_for_good:
  assumes inv: "client_inv s" and p: "pendingCommands s i = Some p"
    and none: "filter (\<lambda>c. fst c = p) (calls s) = []"
    and calls: "calls (step e s) = calls s @ [(p, v)]"
    and gone: "pendingCommands (step e s) i = None"
  shows "filter (\<lambda>c. fst c = p) (calls (run evs (step e s))) = [(p, v)] \<and>
         pendingCommands (run evs (step e s)) i = None"
proof -
  have inv2: "client_inv (step e s)" by (rule client_inv_step [OF inv])
  have "(p, v) \<in> set (calls (step e s))" unfolding calls by simp
  then have c: "p < created (step e s)" and "p \<in> fst ` set (calls (step e s))"
    using inv_callsD [OF inv2] by force+
  then have free: "\<forall>j. pendingCommands (step e s) j \<noteq> Some p"
    using inv_pendingD [OF inv2] by blast
  have "filter (\<lambda>c. fst c = p) (calls (run evs (step e s))) =
        filter (\<lambda>c. fst c = p) (calls (step e s))"
    by (rule released_run [OF inv2 c free])
  also have "\<dots> = [(p, v)]" unfolding calls using none by simp
  finally have one: "filter (\<lambda>c. fst c = p) (calls (run evs (step e s))) = [(p, v)]" .
  have "i \<le> messageId s" using inv_pendingD [OF inv p] by simp
  then have "i \<le> messageId (step e s)" using messageId_step [of s e] by simp
  then have "pendingCommands (run evs (step e s)) i = None"
    using gone by (rule gone_run)
  then show ?thesis using one by simp
qed

text \<open>
  C1. Take any run of events on a new client after which the socket is open, and a call
  of \<open>send\<close> made then: it gets the next id, one above the last, and its frame goes
  out under that id. Let any events follow that do not concern this id (other calls,
  responses to other ids in any order, other timers), then a response frame carrying
  this id, then any events at all. The caller's promise is still pending just before
  that frame and is settled by it: resolved with the frame's result, or rejected with
  the frame's error. Where the frame stands among the other responses plays no part.
\<close>

theorem response_matched_by_id:
  assumes "cdp_ws (run pre CDPClient_new) = Some OPEN"
    and "CDPClient_send meth params (run pre CDPClient_new) = (p, s')"
    and "\<forall>e \<in> set before. \<not> touches (messageId s') e"
    and "msg_id m = Some (messageId s')"
  shows "messageId s' = Suc (messageId (run pre CDPClient_new)) \<and>
         wire s' = wire (run pre CDPClient_new) @ [(messageId s', meth, params)] \<and>
         promise_state (run before s') p = None \<and>
         promise_state (run (before @ Response m # after) s') p = Some (outcome m)"
proof -
  note reg = invoke_registered [OF assms(1-3)]
  have pending: "promise_state (run before s') p = None"
    using reg(4) unfolding promise_state_def
    by (simp add: map_of_eq_None_iff filter_empty_conv image_iff) force
  have "filter (\<lambda>c. fst c = p) (calls (run after (step (Response m) (run before s')))) =
          [(p, outcome m)]"
    using settled_for_good [OF reg(1) reg(2) reg(4)]
      response_step [OF reg(2) assms(4)] by blast
  then have "promise_state (run (before @ Response m # after) s') p = Some (outcome m)"
    unfolding promise_state_def by (simp add: map_of_single_call)
  then show ?thesis using reg(5,6) pending by simp
qed

text \<open>
  C2. For a call of \<open>send\<close> as in C1 and events that do not concern its id: the entry
  is in the table and no \<open>resolve\<close> or \<open>reject\<close> of the promise has been called.
  If a response with the id comes next, or if the timer fires next, then after any
  further events (late responses and timers among them) the calls made for the
  promise are exactly one, with the response's content or with the timeout error, and
  the entry is gone. A frame without an id, or with an id that has no entry, leaves
  any state as it is.
\<close>

theorem pending_destroyed_once:
  assumes "cdp_ws (run pre CDPClient_new) = Some OPEN"
    and "CDPClient_send meth params (run pre CDPClient_new) = (p, s')"
    and "\<forall>e \<in> set before. \<not> touches (messageId s') e"
  shows "pendingCommands (run before s') (messageId s') = Some p \<and>
         filter (\<lambda>c. fst c = p) (calls (run before s')) = [] \<and>
         (msg_id m = Some (messageId s') \<longrightarrow>
            filter (\<lambda>c. fst c = p) (calls (run (before @ Response m # after) s')) =
              [(p, outcome m)] \<and>
            pendingCommands (run (before @ Response m # after) s') (messageId s') = None) \<and>
         filter (\<lambda>c. fst c = p) (calls (run (before @ Deadline (messageId s') # after) s')) =
           [(p, Rejected (''Command '' @ meth @ '' timed out''))] \<and>
         pendingCommands (run (before @ Deadline (messageId s') # after) s') (messageId s') = None \<and>
         (msg_id late = None \<or> (\<exists>j. msg_id late = Some j \<and> pendingCommands t j = None) \<longrightarrow>
            handleMessage late t = t)"
proof -
  note reg = invoke_registered [OF assms]
  have resp: "filter (\<lambda>c. fst c = p) (calls (run (before @ Response m # after) s')) =
              [(p, outcome m)] \<and>
            pendingCommands (run (before @ Response m # after) s') (messageId s') = None"
    if "msg_id m = Some (messageId s')"
    using settled_for_good [OF reg(1) reg(2) reg(4), of "Response m" "outcome m" after]
      response_step [OF reg(2) that] by simp
  have dead: "filter (\<lambda>c. fst c = p) (calls (run (before @ Deadline (messageId s') # after) s')) =
           [(p, Rejected (''Command '' @ meth @ '' timed out''))] \<and>
         pendingCommands (run (before @ Deadline (messageId s') # after) s') (messageId s') = None"
    using settled_for_good [OF reg(1) reg(2) reg(4), of "Deadline (messageId s')"
        "Rejected (''Command '' @ meth @ '' timed out'')" after]
      deadline_step [OF reg(2) reg(3)] by simp
  show ?thesis using reg(2) reg(4) resp dead handleMessage_dropped [of late t] by blast
qed

theorem response_matched_by_id_witness:
  "promise_state
     (run [SetSocket (Some OPEN), Invoke ''A'' ''{}'', Invoke ''B'' ''{}'', Invoke ''C'' ''{}'',
           Response \<lparr>msg_id = Some 3, msg_error = None, msg_result = ''r3''\<rparr>,
           Response \<lparr>msg_id = Some 1, msg_error = None, msg_result = ''r1''\<rparr>,
           Response \<lparr>msg_id = Some 2, msg_error = Some ''e2'', msg_result = []\<rparr>]
        CDPClient_new) 1 = Some (Rejected ''e2'') \<and>
   promise_state
     (run [SetSocket (Some OPEN), Invoke ''A'' ''{}'', Invoke ''B'' ''{}'', Invoke ''C'' ''{}'',
           Response \<lparr>msg_id = Some 3, msg_error = None, msg_result = ''r3''\<rparr>,
           Response \<lparr>msg_id = Some 1, msg_error = None, msg_result = ''r1''\<rparr>,
           Response \<lparr>msg_id = Some 2, msg_error = Some ''e2'', msg_result = []\<rparr>]
        CDPClient_new) 0 = Some (Resolved ''r1'') \<and>
   promise_state
     (run [SetSocket (Some OPEN), Invoke ''A'' ''{}'', Invoke ''B'' ''{}'', Invoke ''C'' ''{}'',
           Response \<lparr>msg_id = Some 3, msg_error = None, msg_result = ''r3''\<rparr>,
           Response \<lparr>msg_id = Some 1, msg_error = None, msg_result = ''r1''\<rparr>,
           Response \<lparr>msg_id = Some 2, msg_error = Some ''e2'', msg_result = []\<rparr>]
        CDPClient_new) 2 = Some (Resolved ''r3'')"
  using response_matched_by_id
    [of "[SetSocket (Some OPEN), Invoke ''A'' ''{}'']" "''B''" "''{}''" 1
        "snd (CDPClient_send ''B'' ''{}''
           (run [SetSocket (Some OPEN), Invoke ''A'' ''{}''] CDPClient_new))"
        "[Invoke ''C'' ''{}'',
          Response \<lparr>msg_id = Some 3, msg_error = None, msg_result = ''r3''\<rparr>,
          Response \<lparr>msg_id = Some 1, msg_error = None, msg_result = ''r1''\<rparr>]"
        "\<lparr>msg_id = Some 2, msg_error = Some ''e2'', msg_result = []\<rparr>" "[]"]
  by (simp add: CDPClient_send_def CDPClient_new_def handleMessage_def settle_def
      promise_state_def outcome_def Let_def)

theorem pending_destroyed_once_witness:
  "calls
     (run [SetSocket (Some OPEN), Invoke ''Page.navigate'' ''{}'', Deadline 1,
           Response \<lparr>msg_id = Some 1, msg_error = None, msg_result = ''late''\<rparr>, Deadline 1]
        CDPClient_new)
     = [(0, Rejected ''Command Page.navigate timed out'')] \<and>
   pendingCommands
     (run [SetSocket (Some OPEN), Invoke ''Page.navigate'' ''{}'', Deadline 1,
           Response \<lparr>msg_id = Some 1, msg_error = None, msg_result = ''late''\<rparr>, Deadline 1]
        CDPClient_new) 1 = None \<and>
   calls
     (run [SetSocket (Some OPEN), Invoke ''Page.navigate'' ''{}'',
           Response \<lparr>msg_id = Some 1, msg_error = None, msg_result = ''ok''\<rparr>,
           Response \<lparr>msg_id = Some 1, msg_error = None, msg_result = ''late''\<rparr>, Deadline 1]
        CDPClient_new)
     = [(0, Resolved ''ok'')]"
  using pending_destroyed_once
    [of "[SetSocket (Some OPEN)]" "''Page.navigate''" "''{}''" 0
        "snd (CDPClient_send ''Page.navigate'' ''{}'' (run [SetSocket (Some OPEN)] CDPClient_new))"
        "[]" "\<lparr>msg_id = Some 1, msg_error = None, msg_result = ''ok''\<rparr>"
        "[Response \<lparr>msg_id = Some 1, msg_error = None, msg_result = ''late''\<rparr>, Deadline 1]"
        "\<lparr>msg_id = Some 1, msg_error = None, msg_result = ''late''\<rparr>"
        "run [SetSocket (Some OPEN), Invoke ''Page.navigate'' ''{}'', Deadline 1] CDPClient_new"]
  by (simp add: CDPClient_send_def CDPClient_new_def handleMessage_def settle_def
      command_timeout_def outcome_def Let_def)

subsection \<open>Attaching to a target\<close>

lemma find_first_with: "find P xs = Some x \<longleftrightarrow> first_with P xs x"
  by (auto simp: find_Some_iff first_with_def)

lemma find_none: "find P xs = None \<longleftrightarrow> (\<forall>x \<in> set xs. \<not> P x)"
  by (auto simp: find_None_iff)

lemma connectToTarget_found:
  "find_target targetId targets = Some t \<Longrightarrow>
   connectToTarget targetId (Inr targets) Opens s =
     (Some (Inr t), s\<lparr>cdp_targetId := Some (target_id t), cdp_ws := Some OPEN\<rparr>)"
  by (simp add: connectToTarget_def)

lemma connectToTarget_none:
  "find_target targetId targets = None \<Longrightarrow>
   connectToTarget targetId (Inr targets) hs s = (Some (Inl NoSuitableTarget), s)"
  by (simp add: connectToTarget_def)

text \<open>
  C8. With a target id named (a non-empty string), \<open>connectToTarget\<close> attaches to the
  first entry of the listing that has this id; with none named, to the first entry of
  type \<open>page\<close>; the empty string counts as none named. Where the listing has no such
  entry, and so for the empty listing, the promise is rejected with
  \<open>No suitable target found\<close> whatever the socket layer would do: it cannot stay
  pending.
\<close>

theorem connectToTarget_selects:
  "(tid \<noteq> [] \<and> first_with (\<lambda>t. target_id t = tid) targets t \<longrightarrow>
      connectToTarget (Some tid) (Inr targets) Opens s =
        (Some (Inr t), s\<lparr>cdp_targetId := Some tid, cdp_ws := Some OPEN\<rparr>)) \<and>
   (first_with (\<lambda>t. target_type t = ''page'') targets t \<longrightarrow>
      connectToTarget None (Inr targets) Opens s =
        (Some (Inr t), s\<lparr>cdp_targetId := Some (target_id t), cdp_ws := Some OPEN\<rparr>)) \<and>
   (tid \<noteq> [] \<and> (\<forall>t \<in> set targets. target_id t \<noteq> tid) \<longrightarrow>
      connectToTarget (Some tid) (Inr targets) hs s = (Some (Inl NoSuitableTarget), s)) \<and>
   ((\<forall>t \<in> set targets. target_type t \<noteq> ''page'') \<longrightarrow>
      connectToTarget None (Inr targets) hs s = (Some (Inl NoSuitableTarget), s)) \<and>
   connectToTarget (Some []) listing hs s = connectToTarget None listing hs s \<and>
   connectToTarget targetId (Inr []) hs s = (Some (Inl NoSuitableTarget), s)"
proof (intro conjI impI)
  assume a: "tid \<noteq> [] \<and> first_with (\<lambda>t. target_id t = tid) targets t"
  then have "find_target (Some tid) targets = Some t" by (simp add: find_first_with)
  moreover have "target_id t = tid" using a by (auto simp: first_with_def)
  ultimately show "connectToTarget (Some tid) (Inr targets) Opens s =
        (Some (Inr t), s\<lparr>cdp_targetId := Some tid, cdp_ws := Some OPEN\<rparr>)"
    by (simp add: connectToTarget_found)
next
  assume "first_with (\<lambda>t. target_type t = ''page'') targets t"
  then have "find_target None targets = Some t" by (simp add: find_first_with)
  then show "connectToTarget None (Inr targets) Opens s =
        (Some (Inr t), s\<lparr>cdp_targetId := Some (target_id t), cdp_ws := Some OPEN\<rparr>)"
    by (rule connectToTarget_found)
next
  assume "tid \<noteq> [] \<and> (\<forall>t \<in> set targets. target_id t \<noteq> tid)"
  then have "find_target (Some tid) targets = None" by (simp add: find_none)
  then show "connectToTarget (Some tid) (Inr targets) hs s = (Some (Inl NoSuitableTarget), s)"
    by (rule connectToTarget_none)
next
  assume "\<forall>t \<in> set targets. target_type t \<noteq> ''page''"
  then have "find_target None targets = None" by (simp add: find_none)
  then show "connectToTarget None (Inr targets) hs s = (Some (Inl NoSuitableTarget), s)"
    by (rule connectToTarget_none)
next
  show "connectToTarget (Some []) listing hs s = connectToTarget None listing hs s"
    by (cases listing) (simp_all add: connectToTarget_def)
next
  have "find_target targetId [] = None" by (cases targetId) simp_all
  then show "connectToTarget targetId (Inr []) hs s = (Some (Inl NoSuitableTarget), s)"
    by (rule connectToTarget_none)
qed

theorem connectToTarget_selects_witness:
  "fst (connectToTarget (Some ''T2'')
     (Inr [\<lparr>target_id = ''T0'', target_type = ''service_worker'', target_title = ''sw'',
            target_url = ''u0'', webSocketDebuggerUrl = ''ws0''\<rparr>,
           \<lparr>target_id = ''T1'', target_type = ''page'', target_title = ''one'',
            target_url = ''u1'', webSocketDebuggerUrl = ''ws1''\<rparr>,
           \<lparr>target_id = ''T2'', target_type = ''page'', target_title = ''two'',
            target_url = ''u2'', webSocketDebuggerUrl = ''ws2''\<rparr>]) Opens CDPClient_new)
     = Some (Inr \<lparr>target_id = ''T2'', target_type = ''page'', target_title = ''two'',
            target_url = ''u2'', webSocketDebuggerUrl = ''ws2''\<rparr>) \<and>
   fst (connectToTarget None
     (Inr [\<lparr>target_id = ''T0'', target_type = ''service_worker'', target_title = ''sw'',
            target_url = ''u0'', webSocketDebuggerUrl = ''ws0''\<rparr>,
           \<lparr>target_id = ''T1'', target_type = ''page'', target_title = ''one'',
            target_url = ''u1'', webSocketDebuggerUrl = ''ws1''\<rparr>,
           \<lparr>target_id = ''T2'', target_type = ''page'', target_title = ''two'',
            target_url = ''u2'', webSocketDebuggerUrl = ''ws2''\<rparr>]) Opens CDPClient_new)
     = Some (Inr \<lparr>target_id = ''T1'', target_type = ''page'', target_title = ''one'',
            target_url = ''u1'', webSocketDebuggerUrl = ''ws1''\<rparr>) \<and>
   fst (connectToTarget None
     (Inr [\<lparr>target_id = ''T0'', target_type = ''service_worker'', target_title = ''sw'',
            target_url = ''u0'', webSocketDebuggerUrl = ''ws0''\<rparr>]) Silent CDPClient_new)
     = Some (Inl NoSuitableTarget) \<and>
   fst (connectToTarget None (Inr []) Silent CDPClient_new) = Some (Inl NoSuitableTarget)"
proof -
  let ?t0 = "\<lparr>target_id = ''T0'', target_type = ''service_worker'', target_title = ''sw'',
            target_url = ''u0'', webSocketDebuggerUrl = ''ws0''\<rparr>"
  let ?t1 = "\<lparr>target_id = ''T1'', target_type = ''page'', target_title = ''one'',
            target_url = ''u1'', webSocketDebuggerUrl = ''ws1''\<rparr>"
  let ?t2 = "\<lparr>target_id = ''T2'', target_type = ''page'', target_title = ''two'',
            target_url = ''u2'', webSocketDebuggerUrl = ''ws2''\<rparr>"
  have f2: "first_with (\<lambda>t. target_id t = ''T2'') [?t0, ?t1, ?t2] ?t2"
    unfolding first_with_def by (rule exI [of _ 2]) (simp add: less_Suc_eq numeral_2_eq_2)
  have f1: "first_with (\<lambda>t. target_type t = ''page'') [?t0, ?t1, ?t2] ?t1"
    unfolding first_with_def by (rule exI [of _ 1]) simp
  show ?thesis
    using connectToTarget_selects [of "''T2''" "[?t0, ?t1, ?t2]" ?t2 CDPClient_new Silent "Inr []" None]
      connectToTarget_selects [of "''T2''" "[?t0, ?t1, ?t2]" ?t1 CDPClient_new Silent "Inr []" None]
      connectToTarget_selects [of "''T2''" "[?t0]" ?t1 CDPClient_new Silent "Inr []" None]
      f1 f2
    by simp
qed

section \<open>Properties of the relay core\<close>

lemma relay_run_Nil [simp]: "relay_run [] s = s"
  by (simp add: relay_run_def)

lemma relay_run_Cons [simp]: "relay_run (e # evs) s = relay_run evs (relay_step e s)"
  by (simp add: relay_run_def)

lemma relay_run_snoc [simp]: "relay_run (evs @ [e]) s = relay_step e (relay_run evs s)"
  by (simp add: relay_run_def)

lemma client_for_Some:
  "client_for h rid = Some (c, client) \<longleftrightarrow>
   requestToClient h rid = Some c \<and> c \<noteq> 0 \<and> clients h c = Some client"
  by (auto simp: client_for_def split: option.splits)

lemma client_for_None:
  "client_for h rid = None \<longleftrightarrow>
   (\<forall>c. requestToClient h rid = Some c \<longrightarrow> c = 0 \<or> clients h c = None)"
  by (auto simp: client_for_def split: option.splits)

lemma client_for_live:
  assumes "routes_live h"
  shows "client_for h rid =
         (case requestToClient h rid of
            None \<Rightarrow> None
          | Some c \<Rightarrow> Some (c, the (clients h c)))"
proof (cases "requestToClient h rid")
  case None
  then show ?thesis by (simp add: client_for_def)
next
  case (Some c)
  then have live: "clients h c \<noteq> None"
    using assms unfolding routes_live_def by blast
  have "clients h 0 = None" using assms unfolding routes_live_def by blast
  with live have "c \<noteq> 0" by (cases "c = 0") simp_all
  with live have "clients h c \<noteq> None" and "c \<noteq> 0" by simp_all
  then show ?thesis using Some by (auto simp: client_for_def)
qed

text \<open>What \<open>sendResponse\<close> and \<open>sendError\<close> do to routes and clients is the same.\<close>

lemma complete_routed:
  assumes "client_for h rid = Some (c, client)"
  shows "requestToClient (complete now rid out h) = (requestToClient h)(rid := None)"
    and "clients (complete now rid out h) =
         (clients h)(c \<mapsto> WSClient_send
            \<lparr>env_id = rid, direction = ''from-chrome'', timestamp = now,
             payload = (case out of Done result \<Rightarrow> ResultPayload rid result
                        | Failed error \<Rightarrow> ErrorPayload rid error)\<rparr> client)"
    and "clientCounter (complete now rid out h) = clientCounter h"
  using assms by (cases out; simp add: complete_def sendResponse_def sendError_def Let_def)+

lemma complete_unrouted:
  assumes "client_for h rid = None"
  shows "requestToClient (complete now rid out h) = requestToClient h"
    and "clients (complete now rid out h) = clients h"
    and "clientCounter (complete now rid out h) = clientCounter h"
    and "hlog (complete now rid out h) =
         hlog h @ (case out of
                     Done result \<Rightarrow> [DebugSendingResponse rid (requestToClient h rid),
                                     WarnNoClientForRequest rid]
                   | Failed error \<Rightarrow> [WarnNoClientForError rid])"
  using assms by (cases out; simp add: complete_def sendResponse_def sendError_def Let_def)+

lemma routes_live_new: "routes_live CDPHost_new"
  by (simp add: routes_live_def CDPHost_new_def)

lemma routes_live_onConnection:
  "routes_live h \<Longrightarrow> routes_live (onConnection client h)"
  by (auto simp: routes_live_def onConnection_def Let_def)

lemma routes_live_onMessage:
  "routes_live h \<Longrightarrow> clients h c \<noteq> None \<Longrightarrow> routes_live (onMessage c m h)"
  by (auto simp: routes_live_def onMessage_def)

lemma routes_live_onClose:
  "routes_live h \<Longrightarrow> routes_live (onClose c h)"
  by (auto simp: routes_live_def onClose_def)

lemma routes_live_complete:
  assumes "routes_live h"
  shows "routes_live (complete now rid out h)"
proof (cases "client_for h rid")
  case None
  then show ?thesis using assms
    by (simp add: routes_live_def complete_unrouted)
next
  case (Some a)
  obtain c client where a: "a = (c, client)" by (cases a)
  have c: "c \<noteq> 0" using Some a by (simp add: client_for_Some)
  show ?thesis using assms c
    unfolding routes_live_def complete_routed [OF Some [unfolded a]]
    by auto
qed

lemma routes_live_step: "routes_live (host s) \<Longrightarrow> routes_live (host (relay_step e s))"
proof (cases e)
  case Connection
  assume "routes_live (host s)"
  then show ?thesis unfolding Connection by (simp add: routes_live_onConnection)
next
  case (Message c m)
  assume "routes_live (host s)"
  then show ?thesis unfolding Message by (simp add: routes_live_onMessage)
next
  case (SocketClosing c)
  assume "routes_live (host s)"
  then show ?thesis unfolding SocketClosing
    by (auto simp: routes_live_def split: option.splits)
next
  case (Close c)
  assume "routes_live (host s)"
  then show ?thesis unfolding Close by (simp add: routes_live_onClose)
next
  case (Complete k out now)
  assume "routes_live (host s)"
  then show ?thesis unfolding Complete by (simp add: routes_live_complete)
qed

lemma routes_live_run: "routes_live (host s) \<Longrightarrow> routes_live (host (relay_run evs s))"
  by (induction evs arbitrary: s) (simp_all add: routes_live_step)

lemma routes_live_reachable: "routes_live (host (relay_run evs relay_new))"
  by (rule routes_live_run) (simp add: relay_new_def routes_live_new)

text \<open>
  C3. In the state after any run of events, let a tool call with correlation id \<open>R\<close>
  end, in success (\<open>sendResponse\<close>) or in failure (\<open>sendError\<close>). Afterwards \<open>R\<close>
  has no route and every other route is as before. If \<open>R\<close> was routed to session
  \<open>S\<close>, then \<open>S\<close> is connected, the envelope
  \<open>{id: R, direction: from-chrome, payload: {requestId: R, result|error}}\<close> is handed
  to the \<open>send\<close> of \<open>S\<close>, and no other client changes. If \<open>R\<close> had no route, as
  after \<open>S\<close> has disconnected, no client changes and the log gains its warning.
\<close>

theorem response_to_recorded_session:
  fixes evs :: "'p host_event list"
  assumes "h = host (relay_run evs relay_new)"
    and "env = \<lparr>env_id = R, direction = ''from-chrome'', timestamp = now,
                 payload = (case out of Done result \<Rightarrow> ResultPayload R result
                            | Failed error \<Rightarrow> ErrorPayload R error)\<rparr>"
  shows "requestToClient (complete now R out h) = (requestToClient h)(R := None) \<and>
         (\<forall>S. requestToClient h R = Some S \<longrightarrow>
            (\<exists>client. clients h S = Some client \<and>
               clients (complete now R out h) = (clients h)(S \<mapsto> WSClient_send env client))) \<and>
         (requestToClient h R = None \<longrightarrow>
            clients (complete now R out h) = clients h \<and>
            hlog (complete now R out h) =
              hlog h @ (case out of
                          Done result \<Rightarrow> [DebugSendingResponse R None, WarnNoClientForRequest R]
                        | Failed error \<Rightarrow> [WarnNoClientForError R]))"
proof -
  have live: "routes_live h" unfolding assms(1) by (rule routes_live_reachable)
  show ?thesis
  proof (cases "requestToClient h R")
    case None
    then have cf: "client_for h R = None" by (simp add: client_for_def)
    have "(requestToClient h)(R := None) = requestToClient h"
      using None by (simp add: fun_upd_idem)
    then show ?thesis using None complete_unrouted [OF cf, of now out]
      by (cases out) simp_all
  next
    case (Some S)
    then obtain client where cl: "clients h S = Some client"
      using live unfolding routes_live_def by blast
    have cf: "client_for h R = Some (S, client)"
      using client_for_live [OF live, of R] Some cl by simp
    show ?thesis using Some cl complete_routed [OF cf, of now out] assms(2) by simp
  qed
qed




lemma relay_invD:
  assumes "relay_inv s"
  shows "distinct (map fst (inflight s))"
    and "requestToClient (host s) reqId = Some c \<longleftrightarrow>
         (reqId, c) \<in> set (inflight s) \<and> clients (host s) c \<noteq> None"
    and "clients (host s) c \<noteq> None \<Longrightarrow> 0 < c \<and> c \<le> clientCounter (host s)"
    and "(reqId, c) \<in> set (inflight s) \<Longrightarrow> c \<le> clientCounter (host s)"
  using assms unfolding relay_inv_def by (blast, blast, blast, force)

lemma relay_invI:
  assumes "distinct (map fst (inflight s))"
    and "\<And>reqId c. requestToClient (host s) reqId = Some c \<longleftrightarrow>
         (reqId, c) \<in> set (inflight s) \<and> clients (host s) c \<noteq> None"
    and "\<And>c. clients (host s) c \<noteq> None \<Longrightarrow> 0 < c \<and> c \<le> clientCounter (host s)"
    and "\<And>reqId c. (reqId, c) \<in> set (inflight s) \<Longrightarrow> c \<le> clientCounter (host s)"
  shows "relay_inv s"
  unfolding relay_inv_def
proof (intro conjI allI impI ballI)
  fix x assume "x \<in> set (inflight s)"
  then show "snd x \<le> clientCounter (host s)" using assms(4) [of "fst x" "snd x"] by simp
qed (use assms in blast)+

lemma relay_inv_new: "relay_inv relay_new"
  by (simp add: relay_inv_def relay_new_def CDPHost_new_def)

text \<open>Removing the call at position \<open>k\<close> from calls with distinct ids.\<close>

lemma remove_nth_distinct:
  assumes d: "distinct (map fst xs)" and k: "k < length xs"
  shows "distinct (map fst (take k xs @ drop (Suc k) xs))"
    and "set (take k xs @ drop (Suc k) xs) = set xs - {xs ! k}"
    and "fst (xs ! k) \<notin> fst ` set (take k xs @ drop (Suc k) xs)"
proof -
  have xs: "xs = take k xs @ xs ! k # drop (Suc k) xs"
    using k by (rule id_take_nth_drop)
  have d': "distinct (map fst (take k xs @ xs ! k # drop (Suc k) xs))"
    using d xs by simp
  show "distinct (map fst (take k xs @ drop (Suc k) xs))"
    using d' by auto
  show 3: "fst (xs ! k) \<notin> fst ` set (take k xs @ drop (Suc k) xs)"
    using d' by auto
  have "set xs = insert (xs ! k) (set (take k xs @ drop (Suc k) xs))"
    by (subst xs) auto
  moreover have "xs ! k \<notin> set (take k xs @ drop (Suc k) xs)"
    using 3 by force
  ultimately show "set (take k xs @ drop (Suc k) xs) = set xs - {xs ! k}"
    by auto
qed

lemma relay_inv_connection:
  assumes inv: "relay_inv s"
  shows "relay_inv (relay_step Connection s)"
proof (rule relay_invI, goal_cases)
  case 1
  show ?case using relay_invD(1) [OF inv] by simp
next
  case (2 reqId c)
  show ?case
  proof (cases "c = Suc (clientCounter (host s))")
    case True
    have "requestToClient (host s) reqId \<noteq> Some c"
      using relay_invD(2) [OF inv, of reqId c] relay_invD(4) [OF inv, of reqId c] True by auto
    moreover have "(reqId, c) \<notin> set (inflight s)"
      using relay_invD(4) [OF inv, of reqId c] True by auto
    ultimately show ?thesis by (simp add: onConnection_def Let_def)
  next
    case False
    then show ?thesis using relay_invD(2) [OF inv, of reqId c]
      by (simp add: onConnection_def Let_def)
  qed
next
  case (3 c)
  then show ?case using relay_invD(3) [OF inv, of c]
    by (cases "c = Suc (clientCounter (host s))") (auto simp: onConnection_def Let_def)
next
  case (4 reqId c)
  then show ?case using relay_invD(4) [OF inv, of reqId c]
    by (simp add: onConnection_def Let_def)
qed

lemma relay_inv_message:
  assumes inv: "relay_inv s" and fresh: "env_id m \<notin> fst ` set (inflight s)"
  shows "relay_inv (relay_step (Message c m) s)"
proof (cases "clients (host s) c = None")
  case True
  then show ?thesis using inv by simp
next
  case False
  have step: "relay_step (Message c m) s =
      s\<lparr>host := onMessage c m (host s), inflight := inflight s @ [(env_id m, c)]\<rparr>"
    using False by auto
  show ?thesis unfolding step
  proof (rule relay_invI, goal_cases)
    case 1
    show ?case using relay_invD(1) [OF inv] fresh by simp
  next
    case (2 reqId c')
    show ?case
    proof (cases "reqId = env_id m")
      case True
      have "(env_id m, c') \<notin> set (inflight s)" using fresh by force
      then show ?thesis using True False by (auto simp: onMessage_def)
    next
      case False
      then show ?thesis using relay_invD(2) [OF inv, of reqId c']
        by (auto simp: onMessage_def)
    qed
  next
    case (3 c')
    then show ?case using relay_invD(3) [OF inv, of c'] by (simp add: onMessage_def)
  next
    case (4 reqId c')
    then show ?case using relay_invD(4) [OF inv, of reqId c'] relay_invD(3) [OF inv, of c] False
      by (auto simp: onMessage_def)
  qed
qed

lemma relay_inv_socket_closing:
  assumes inv: "relay_inv s"
  shows "relay_inv (relay_step (SocketClosing c) s)"
proof (cases "clients (host s) c")
  case None
  then show ?thesis using inv by simp
next
  case (Some client)
  show ?thesis
  proof (rule relay_invI, goal_cases)
    case 1
    show ?case using relay_invD(1) [OF inv] Some by simp
  next
    case (2 reqId c')
    show ?case using relay_invD(2) [OF inv, of reqId c'] Some by auto
  next
    case (3 c')
    then show ?case using relay_invD(3) [OF inv, of c'] Some by (auto split: if_splits)
  next
    case (4 reqId c')
    then show ?case using relay_invD(4) [OF inv, of reqId c'] Some by simp
  qed
qed

lemma relay_inv_close:
  assumes inv: "relay_inv s"
  shows "relay_inv (relay_step (Close c) s)"
proof (cases "clients (host s) c = None")
  case True
  then show ?thesis using inv by simp
next
  case False
  have step: "relay_step (Close c) s = s\<lparr>host := onClose c (host s)\<rparr>"
    using False by auto
  show ?thesis unfolding step
  proof (rule relay_invI, goal_cases)
    case 1
    show ?case using relay_invD(1) [OF inv] by simp
  next
    case (2 reqId c')
    show ?case using relay_invD(2) [OF inv, of reqId c']
      by (cases "c' = c") (auto simp: onClose_def)
  next
    case (3 c')
    then show ?case using relay_invD(3) [OF inv, of c']
      by (auto simp: onClose_def split: if_splits)
  next
    case (4 reqId c')
    then show ?case using relay_invD(4) [OF inv, of reqId c'] by (simp add: onClose_def)
  qed
qed

text \<open>
  In such a state the route of a call in flight leads to the client that started it
  as long as that client is connected, and is absent once it is not.
\<close>

lemma inflight_route:
  assumes inv: "relay_inv s" and k: "k < length (inflight s)"
    and RS: "inflight s ! k = (R, S)"
  shows "client_for (host s) R =
         (case clients (host s) S of None \<Rightarrow> None | Some client \<Rightarrow> Some (S, client))"
proof -
  have mem: "(R, S) \<in> set (inflight s)" using k RS by (metis nth_mem)
  have uniq: "S' = S" if "(R, S') \<in> set (inflight s)" for S'
    using relay_invD(1) [OF inv] mem that by (meson eq_key_imp_eq_value)
  show ?thesis
  proof (cases "clients (host s) S")
    case None
    have "requestToClient (host s) R \<noteq> Some c" for c
      using relay_invD(2) [OF inv, of R c] uniq [of c] None by auto
    then have "requestToClient (host s) R = None"
      by (cases "requestToClient (host s) R") auto
    then show ?thesis using None by (simp add: client_for_def)
  next
    case (Some client)
    then have "requestToClient (host s) R = Some S"
      using relay_invD(2) [OF inv, of R S] mem by simp
    moreover have "S \<noteq> 0" using relay_invD(3) [OF inv, of S] Some by auto
    ultimately show ?thesis using Some by (simp add: client_for_def)
  qed
qed

lemma relay_inv_complete:
  assumes inv: "relay_inv s"
  shows "relay_inv (relay_step (Complete k out now) s)"
proof (cases "k < length (inflight s)")
  case False
  then show ?thesis using inv by simp
next
  case True
  obtain R S where RS: "inflight s ! k = (R, S)" by (cases "inflight s ! k")
  let ?rest = "take k (inflight s) @ drop (Suc k) (inflight s)"
  have step: "relay_step (Complete k out now) s =
      s\<lparr>host := complete now R out (host s), inflight := ?rest\<rparr>"
    using True RS by simp
  note rm = remove_nth_distinct [OF relay_invD(1) [OF inv] True, unfolded RS]
  have gone: "(R, c) \<notin> set ?rest" for c using rm(3) by force
  have kept: "(reqId, c) \<in> set ?rest \<longleftrightarrow> (reqId, c) \<in> set (inflight s)"
    if "reqId \<noteq> R" for reqId c
    using rm(2) that by auto
  have sub: "(reqId, c) \<in> set ?rest \<Longrightarrow> (reqId, c) \<in> set (inflight s)" for reqId c
    using rm(2) by auto
  note cf = inflight_route [OF inv True RS]
  show ?thesis unfolding step
  proof (cases "clients (host s) S")
    case None
    then have cfn: "client_for (host s) R = None" using cf by simp
    have noR: "requestToClient (host s) R \<noteq> Some c" for c
      using cfn relay_invD(2) [OF inv, of R c] relay_invD(3) [OF inv, of c]
      by (auto simp: client_for_None)
    show "relay_inv (s\<lparr>host := complete now R out (host s), inflight := ?rest\<rparr>)"
    proof (rule relay_invI, goal_cases)
      case 1
      show ?case using rm(1) by simp
    next
      case (2 reqId c)
      show ?case
      proof (cases "reqId = R")
        case True
        then show ?thesis using noR [of c] gone [of c]
          by (simp add: complete_unrouted [OF cfn])
      next
        case False
        then show ?thesis using relay_invD(2) [OF inv, of reqId c] kept [OF False, of c]
          by (simp add: complete_unrouted [OF cfn])
      qed
    next
      case (3 c)
      then show ?case using relay_invD(3) [OF inv, of c]
        by (simp add: complete_unrouted [OF cfn])
    next
      case (4 reqId c)
      then show ?case using relay_invD(4) [OF inv, of reqId c] sub [of reqId c]
        by (simp add: complete_unrouted [OF cfn])
    qed
  next
    case (Some client)
    then have cfs: "client_for (host s) R = Some (S, client)" using cf by simp
    show "relay_inv (s\<lparr>host := complete now R out (host s), inflight := ?rest\<rparr>)"
    proof (rule relay_invI, goal_cases)
      case 1
      show ?case using rm(1) by simp
    next
      case (2 reqId c)
      show ?case
      proof (cases "reqId = R")
        case True
        then show ?thesis using gone [of c]
          by (simp add: complete_routed [OF cfs])
      next
        case False
        then show ?thesis using relay_invD(2) [OF inv, of reqId c] kept [OF False, of c] Some
          by (auto simp: complete_routed [OF cfs])
      qed
    next
      case (3 c)
      then show ?case using relay_invD(3) [OF inv, of c] Some
        by (auto simp: complete_routed [OF cfs] split: if_splits)
    next
      case (4 reqId c)
      then show ?case using relay_invD(4) [OF inv, of reqId c] sub [of reqId c]
        by (simp add: complete_routed [OF cfs])
    qed
  qed
qed

lemma relay_inv_run:
  "relay_inv s \<Longrightarrow> collision_free s evs \<Longrightarrow> relay_inv (relay_run evs s)"
proof (induction evs arbitrary: s)
  case Nil
  then show ?case by simp
next
  case (Cons e evs)
  have "relay_inv (relay_step e s)"
  proof (cases e)
    case Connection
    then show ?thesis using Cons.prems(1) by (simp only: relay_inv_connection)
  next
    case (Message c m)
    then have "env_id m \<notin> fst ` set (inflight s)" using Cons.prems(2) by simp
    then show ?thesis unfolding Message by (rule relay_inv_message [OF Cons.prems(1)])
  next
    case (SocketClosing c)
    then show ?thesis using Cons.prems(1) by (simp only: relay_inv_socket_closing)
  next
    case (Close c)
    then show ?thesis using Cons.prems(1) by (simp only: relay_inv_close)
  next
    case (Complete k out now)
    then show ?thesis using Cons.prems(1) by (simp only: relay_inv_complete)
  qed
  moreover have "collision_free (relay_step e s) evs" using Cons.prems(2) by simp
  ultimately show ?case using Cons.IH by simp
qed

theorem response_to_recorded_session_witness:
  "delivered
     (complete 7 ''r'' (Done ''A'')
        (host (relay_run [Connection, Connection,
           Message 2 \<lparr>env_id = ''r'', direction = ''to-chrome'', timestamp = 0,
                      payload = ''navigate''\<rparr>] relay_new))) 2
     = [\<lparr>env_id = ''r'', direction = ''from-chrome'', timestamp = 7,
         payload = ResultPayload ''r'' ''A''\<rparr>] \<and>
   delivered
     (complete 7 ''r'' (Done ''A'')
        (host (relay_run [Connection, Connection,
           Message 2 \<lparr>env_id = ''r'', direction = ''to-chrome'', timestamp = 0,
                      payload = ''navigate''\<rparr>] relay_new))) 1 = [] \<and>
   requestToClient
     (complete 7 ''r'' (Done ''A'')
        (host (relay_run [Connection, Connection,
           Message 2 \<lparr>env_id = ''r'', direction = ''to-chrome'', timestamp = 0,
                      payload = ''navigate''\<rparr>] relay_new))) ''r'' = None \<and>
   hlog
     (complete 8 ''r'' (Failed ''boom'')
        (host (relay_run [Connection, Connection,
           Message 2 \<lparr>env_id = ''r'', direction = ''to-chrome'', timestamp = 0,
                      payload = ''navigate''\<rparr>, Close 2] relay_new)))
     = [WarnNoClientForError ''r'']"
  using response_to_recorded_session
    [of "host (relay_run [Connection, Connection,
           Message 2 \<lparr>env_id = ''r'', direction = ''to-chrome'', timestamp = 0,
                      payload = ''navigate''\<rparr>] relay_new)"
        "[Connection, Connection,
           Message 2 \<lparr>env_id = ''r'', direction = ''to-chrome'', timestamp = 0,
                      payload = ''navigate''\<rparr>]"
        "\<lparr>env_id = ''r'', direction = ''from-chrome'', timestamp = 7,
         payload = ResultPayload ''r'' ''A''\<rparr>" "''r''" 7 "Done ''A''"]
    response_to_recorded_session
    [of "host (relay_run [Connection, Connection,
           Message 2 \<lparr>env_id = ''r'', direction = ''to-chrome'', timestamp = 0,
                      payload = ''navigate''\<rparr>, Close 2] relay_new)"
        "[Connection, Connection,
           Message 2 \<lparr>env_id = ''r'', direction = ''to-chrome'', timestamp = 0,
                      payload = ''navigate''\<rparr>, Close 2]"
        "\<lparr>env_id = ''r'', direction = ''from-chrome'', timestamp = 8,
         payload = ErrorPayload ''r'' ''boom''\<rparr>" "''r''" 8 "Failed ''boom''"]
  by (simp add: delivered_def relay_new_def CDPHost_new_def onConnection_def onMessage_def
      onClose_def WSClient_send_def ws_send_def Let_def)


text \<open>
  C4. The claim asks that a request under an id already routed to another session be
  rejected, so that responses never cross. The code at the input that decides it: two
  sessions each submit their first request under id \<open>1\<close>. The second request is
  accepted, both calls are in flight, and the route of \<open>1\<close> leads to session 2. When
  the call of session 1 ends with result \<open>A\<close>, the result goes to session 2 and
  session 1 gets nothing; when the call of session 2 then ends with result \<open>B\<close>,
  no route is left, the result is dropped and the log gains its warning.
\<close>

theorem colliding_id_overwrites_route:
  "inflight
     (relay_run [Connection, Connection,
        Message 1 \<lparr>env_id = ''1'', direction = ''to-chrome'', timestamp = 0, payload = ''a''\<rparr>,
        Message 2 \<lparr>env_id = ''1'', direction = ''to-chrome'', timestamp = 1, payload = ''b''\<rparr>]
        relay_new) = [(''1'', 1), (''1'', 2)] \<and>
   requestToClient
     (host (relay_run [Connection, Connection,
        Message 1 \<lparr>env_id = ''1'', direction = ''to-chrome'', timestamp = 0, payload = ''a''\<rparr>,
        Message 2 \<lparr>env_id = ''1'', direction = ''to-chrome'', timestamp = 1, payload = ''b''\<rparr>]
        relay_new)) ''1'' = Some 2 \<and>
   delivered
     (host (relay_run [Connection, Connection,
        Message 1 \<lparr>env_id = ''1'', direction = ''to-chrome'', timestamp = 0, payload = ''a''\<rparr>,
        Message 2 \<lparr>env_id = ''1'', direction = ''to-chrome'', timestamp = 1, payload = ''b''\<rparr>,
        Complete 0 (Done ''A'') 7] relay_new)) 2
     = [\<lparr>env_id = ''1'', direction = ''from-chrome'', timestamp = 7,
         payload = ResultPayload ''1'' ''A''\<rparr>] \<and>
   delivered
     (host (relay_run [Connection, Connection,
        Message 1 \<lparr>env_id = ''1'', direction = ''to-chrome'', timestamp = 0, payload = ''a''\<rparr>,
        Message 2 \<lparr>env_id = ''1'', direction = ''to-chrome'', timestamp = 1, payload = ''b''\<rparr>,
        Complete 0 (Done ''A'') 7] relay_new)) 1 = [] \<and>
   delivered
     (host (relay_run [Connection, Connection,
        Message 1 \<lparr>env_id = ''1'', direction = ''to-chrome'', timestamp = 0, payload = ''a''\<rparr>,
        Message 2 \<lparr>env_id = ''1'', direction = ''to-chrome'', timestamp = 1, payload = ''b''\<rparr>,
        Complete 0 (Done ''A'') 7, Complete 0 (Done ''B'') 8] relay_new)) 2
     = [\<lparr>env_id = ''1'', direction = ''from-chrome'', timestamp = 7,
         payload = ResultPayload ''1'' ''A''\<rparr>] \<and>
   delivered
     (host (relay_run [Connection, Connection,
        Message 1 \<lparr>env_id = ''1'', direction = ''to-chrome'', timestamp = 0, payload = ''a''\<rparr>,
        Message 2 \<lparr>env_id = ''1'', direction = ''to-chrome'', timestamp = 1, payload = ''b''\<rparr>,
        Complete 0 (Done ''A'') 7, Complete 0 (Done ''B'') 8] relay_new)) 1 = [] \<and>
   hlog
     (host (relay_run [Connection, Connection,
        Message 1 \<lparr>env_id = ''1'', direction = ''to-chrome'', timestamp = 0, payload = ''a''\<rparr>,
        Message 2 \<lparr>env_id = ''1'', direction = ''to-chrome'', timestamp = 1, payload = ''b''\<rparr>,
        Complete 0 (Done ''A'') 7, Complete 0 (Done ''B'') 8] relay_new))
     = [DebugSendingResponse ''1'' (Some 2), DebugSendingResponse ''1'' None,
        WarnNoClientForRequest ''1'']"
  by (simp add: delivered_def relay_new_def CDPHost_new_def onConnection_def onMessage_def
      complete_def sendResponse_def client_for_def WSClient_send_def ws_send_def Let_def)

text \<open>
  What the routing does achieve. In a run in which no request arrives under an id
  that a call in flight bears, let the call at position \<open>k\<close> in flight, started by
  session \<open>S\<close> under id \<open>R\<close>, end. If \<open>S\<close> is connected, the response envelope is
  handed to the \<open>send\<close> of \<open>S\<close> and no other client changes; if \<open>S\<close> has
  disconnected, no client changes.
\<close>

lemma collision_free_delivery:
  fixes evs :: "'p host_event list"
  assumes "collision_free relay_new evs"
    and "s = relay_run evs relay_new"
    and "k < length (inflight s)"
    and "inflight s ! k = (R, S)"
    and "env = \<lparr>env_id = R, direction = ''from-chrome'', timestamp = now,
                 payload = (case out of Done result \<Rightarrow> ResultPayload R result
                            | Failed error \<Rightarrow> ErrorPayload R error)\<rparr>"
  shows "(\<forall>client. clients (host s) S = Some client \<longrightarrow>
            clients (host (relay_step (Complete k out now :: 'p host_event) s)) =
              (clients (host s))(S \<mapsto> WSClient_send env client)) \<and>
         (clients (host s) S = None \<longrightarrow>
            clients (host (relay_step (Complete k out now :: 'p host_event) s)) =
              clients (host s))"
proof -
  have inv: "relay_inv s" unfolding assms(2)
    by (rule relay_inv_run [OF relay_inv_new assms(1)])
  note cf = inflight_route [OF inv assms(3,4)]
  have step: "host (relay_step (Complete k out now :: 'p host_event) s) =
              complete now R out (host s)"
    using assms(3,4) by simp
  have a: "clients (host (relay_step (Complete k out now :: 'p host_event) s)) =
           (clients (host s))(S \<mapsto> WSClient_send env client)"
    if "clients (host s) S = Some client" for client
  proof -
    have "client_for (host s) R = Some (S, client)" using cf that by simp
    then show ?thesis unfolding step assms(5) by (rule complete_routed(2))
  qed
  have b: "clients (host (relay_step (Complete k out now :: 'p host_event) s)) =
           clients (host s)"
    if "clients (host s) S = None"
  proof -
    have "client_for (host s) R = None" using cf that by simp
    then show ?thesis unfolding step by (rule complete_unrouted(2))
  qed
  show ?thesis using a b by simp
qed

section \<open>Properties of the transport bridge\<close>

















end
